theory Spec2Isabelle
  imports Complex_Main "HOL-Library.Multiset" "HOL-Library.AList" "HOL-Library.Product_Lexorder"
begin

section \<open>Strings and paths\<close>

text \<open>
  JavaScript strings are modelled as \<open>string\<close> (lists of 8-bit characters); every
  pattern of the sources below is ASCII. \<open>startsWith\<close>, \<open>endsWith\<close> and
  \<open>join\<close> are the methods of the same names.
\<close>

definition startsWith :: "string \<Rightarrow> string \<Rightarrow> bool" where
  "startsWith s pre = (take (length pre) s = pre)"

definition endsWith :: "string \<Rightarrow> string \<Rightarrow> bool" where
  "endsWith s suf = (take (length suf) (rev s) = rev suf)"

fun joinWith :: "string \<Rightarrow> string list \<Rightarrow> string" where
  "joinWith sep [] = []"
| "joinWith sep [x] = x"
| "joinWith sep (x # y # ys) = x @ sep @ joinWith sep (y # ys)"

text \<open>\<open>s.split('/')\<close>: the pieces between the slashes, at least one piece.\<close>

fun splitSlash :: "string \<Rightarrow> string list" where
  "splitSlash [] = [ [] ]"
| "splitSlash (c # cs) =
     (if c = CHR ''/'' then [] # splitSlash cs
      else (case splitSlash cs of
              [] \<Rightarrow> [ [c] ]
            | seg # segs \<Rightarrow> (c # seg) # segs))"

text \<open>
  \<open>resolve\<close> and \<open>relative\<close> come from the path library \<open>pathe\<close>, which is not part
  of the repository. They are modelled for paths without a drive letter. The library
  first turns every backslash of an argument into a slash (\<open>normalizeWindowsPath\<close>);
  \<open>isAbsolute\<close> is then "begins with a slash", two slashes and a dot excepted, as
  the library's pattern has it; \<open>normalizeSegments\<close> is the library's
  \<open>normalizeString\<close> on a rooted path: empty and \<open>.\<close> segments are dropped and a
  \<open>..\<close> segment removes the segment before it (nothing at the root). \<open>resolve\<close> with two
  arguments starts from the rightmost absolute argument, falling back on the working
  directory \<open>cwd\<close>; its result is always rooted.
\<close>

definition normalizeWindowsPath :: "string \<Rightarrow> string" where
  "normalizeWindowsPath p = map (\<lambda>c. if c = CHR 0x5C then CHR ''/'' else c) p"

definition isAbsolute :: "string \<Rightarrow> bool" where
  "isAbsolute p = (startsWith p ''/'' \<and> \<not> startsWith p ''//.'')"

fun normalizeSegments :: "string list \<Rightarrow> string list \<Rightarrow> string list" where
  "normalizeSegments [] acc = rev acc"
| "normalizeSegments (s # ss) acc =
     (if s = [] \<or> s = ''.'' then normalizeSegments ss acc
      else if s = ''..'' then normalizeSegments ss (tl acc)
      else normalizeSegments ss (s # acc))"

definition rooted :: "string \<Rightarrow> string" where
  "rooted p = ''/'' @ joinWith ''/'' (normalizeSegments (splitSlash p) [])"

definition resolve :: "string \<Rightarrow> string \<Rightarrow> string \<Rightarrow> string" where
  "resolve cwd a b =
     (if isAbsolute (normalizeWindowsPath b) then rooted (normalizeWindowsPath b)
      else if isAbsolute (normalizeWindowsPath a)
      then rooted (normalizeWindowsPath a @ ''/'' @ normalizeWindowsPath b)
      else rooted (normalizeWindowsPath cwd @ ''/'' @ normalizeWindowsPath a @ ''/'' @
                   normalizeWindowsPath b))"

fun dropCommon :: "string list \<Rightarrow> string list \<Rightarrow> string list \<times> string list" where
  "dropCommon (x # xs) (y # ys) = (if x = y then dropCommon xs ys else (x # xs, y # ys))"
| "dropCommon xs ys = (xs, ys)"

definition relative :: "string \<Rightarrow> string \<Rightarrow> string \<Rightarrow> string" where
  "relative cwd from to =
     (let (f, t) = dropCommon (normalizeSegments (splitSlash (resolve cwd from [])) [])
                              (normalizeSegments (splitSlash (resolve cwd to [])) [])
      in joinWith ''/'' (map (\<lambda>_. ''..'') f @ t))"

text \<open>
  \<open>joinURL\<close> comes from the URL library \<open>ufo\<close> (not part of the repository); the model is
  its two-argument case: an input that is empty or a lone slash is skipped, otherwise the
  base gets one trailing slash and the input loses a leading \<open>/\<close> or \<open>./\<close>.
\<close>

definition withTrailingSlash :: "string \<Rightarrow> string" where
  "withTrailingSlash input = (if endsWith input ''/'' then input else input @ ''/'')"

definition isNonEmptyURL :: "string \<Rightarrow> bool" where
  "isNonEmptyURL url = (url \<noteq> [] \<and> url \<noteq> ''/'')"

definition stripLeadingSlash :: "string \<Rightarrow> string" where
  "stripLeadingSlash segment =
     (if startsWith segment ''./'' then drop 2 segment
      else if startsWith segment ''/'' then drop 1 segment
      else segment)"

definition joinURL :: "string \<Rightarrow> string \<Rightarrow> string" where
  "joinURL base input =
     (if isNonEmptyURL input
      then (if base \<noteq> [] then withTrailingSlash base @ stripLeadingSlash input else input)
      else base)"

section \<open>The pages module\<close>

subsection \<open>Page tree and prerender routes\<close>

text \<open>
  A \<open>NuxtPage\<close> carries its \<open>path\<close>, its optional \<open>file\<close> and its optional list of
  \<open>children\<close>.
\<close>

datatype NuxtPage = NuxtPage (page_path: string) (page_file: "string option")
  (page_children: "NuxtPage list option")

text \<open>
  \<open>OPTIONAL_PARAM_RE = /^\/?:.*(\?|\(\.\*\)\*)$/\<close>: an optional leading slash, a colon,
  any characters other than line terminators, and at the very end either a question mark
  or the five characters \<open>(.*)*\<close>.
\<close>

definition isLineTerminator :: "char \<Rightarrow> bool" where
  "isLineTerminator c = (c = CHR 0x0A \<or> c = CHR 0x0D)"

definition OPTIONAL_PARAM_RE_test :: "string \<Rightarrow> bool" where
  "OPTIONAL_PARAM_RE_test s =
     (case (if startsWith s ''/'' then drop 1 s else s) of
        [] \<Rightarrow> False
      | c # rest \<Rightarrow>
          c = CHR '':'' \<and>
          ((endsWith rest ''?'' \<and> \<not> list_ex isLineTerminator (butlast rest)) \<or>
           (endsWith rest ''(.*)*'' \<and>
              \<not> list_ex isLineTerminator (take (length rest - 5) rest))))"

text \<open>
  \<open>prerenderRoutes\<close> is a JavaScript \<open>Set\<close>: the model keeps its elements in insertion
  order, and \<open>set_add\<close> is \<open>Set.prototype.add\<close>.
\<close>

definition set_add :: "'a \<Rightarrow> 'a list \<Rightarrow> 'a list" where
  "set_add x xs = (if x \<in> set xs then xs else xs @ [x])"

text \<open>
  \<open>processPages\<close> (the \<open>pages:extend\<close> hook registered under \<open>nitro:init\<close>), with the
  set threaded through. \<open>!page.children?.length\<close> holds for a missing and for an empty
  list of children.
\<close>

fun processPages :: "NuxtPage list \<Rightarrow> string \<Rightarrow> string list \<Rightarrow> string list" where
  "processPages [] currentPath routes = routes"
| "processPages (NuxtPage path file children # pages) currentPath routes =
     (let routes1 =
            (if OPTIONAL_PARAM_RE_test path \<and>
                (case children of None \<Rightarrow> True | Some cs \<Rightarrow> cs = [])
             then set_add currentPath routes else routes);
          routes2 =
            (if CHR '':'' \<in> set path then routes1
             else (let route = joinURL currentPath path;
                       routes' = set_add route routes1
                   in (case children of None \<Rightarrow> routes'
                       | Some cs \<Rightarrow> processPages cs route routes')))
      in processPages pages currentPath routes2)"

text \<open>The hook clears the set and walks the pages from the root path.\<close>

definition prerenderRoutes :: "NuxtPage list \<Rightarrow> string list" where
  "prerenderRoutes pages = processPages pages ''/'' []"

subsection \<open>Whether pages are enabled\<close>

text \<open>
  \<open>isPagesEnabled\<close> reads the user's setting and, only when that is not a boolean, the
  router option files, the pages directories and the resolved pages. Those reads are
  outside the program, so the setup record holds what each of them returns and the model
  returns, next to the answer, the list of reads it made.
\<close>

datatype probe =
    ResolveRouterOptions
  | ReadDir string
  | ResolvePagesRoutes
  | CallHookPagesExtend

record RouterOptionsFile =
  ro_path :: string
  ro_optional :: bool

record PagesSetup =
  userPreference :: "bool option"
  routerOptionsFiles :: "RouterOptionsFile list"
  pagesDirs :: "string list"
  isNonEmptyDir :: "string \<Rightarrow> bool"
  extendedPages :: "NuxtPage list"

text \<open>\<open>pagesDirs.some(dir => isNonEmptyDir(dir))\<close> stops at the first non-empty directory.\<close>

fun someDir :: "(string \<Rightarrow> bool) \<Rightarrow> string list \<Rightarrow> bool \<times> probe list" where
  "someDir p [] = (False, [])"
| "someDir p (d # ds) =
     (if p d then (True, [ReadDir d])
      else (let (r, t) = someDir p ds in (r, ReadDir d # t)))"

definition isPagesEnabled :: "PagesSetup \<Rightarrow> bool \<times> probe list" where
  "isPagesEnabled s =
     (case userPreference s of
        Some b \<Rightarrow> (b, [])
      | None \<Rightarrow>
          if length (filter (\<lambda>p. \<not> ro_optional p) (routerOptionsFiles s)) > 0
          then (True, [ResolveRouterOptions])
          else (let (found, reads) = someDir (isNonEmptyDir s) (pagesDirs s) in
                if found then (True, ResolveRouterOptions # reads)
                else (length (extendedPages s) > 0,
                      ResolveRouterOptions # reads @ [ResolvePagesRoutes, CallHookPagesExtend])))"

section \<open>Watch handlers\<close>

datatype WatchEvent = Add | AddDir | Change | Unlink | UnlinkDir

text \<open>
  What a handler asks for: a restart (\<open>callHook('restart')\<close>, hard or not) or a
  regeneration of the templates whose file name passes a filter (\<open>updateTemplates\<close>).
\<close>

datatype WatchAction = Restart bool | UpdateTemplates "string \<Rightarrow> bool"

subsection \<open>The handlers of the pages module\<close>

text \<open>
  \<open>nuxt.apps.default.pages\<close> may be undefined. \<open>restartPaths\<close> and
  \<open>updateTemplatePaths\<close> are computed once at setup from the layers and are taken as
  given.
\<close>

record PagesWatch =
  pw_cwd :: string
  pw_srcDir :: string
  scanPageMeta :: bool
  appPages :: "NuxtPage list option"
  restartPaths :: "string list"
  updateTemplatePaths :: "string list"
  optionsPages :: bool
  currentSetup :: PagesSetup

function isPage :: "string \<Rightarrow> NuxtPage list \<Rightarrow> bool" where
  "isPage file pages =
     (list_ex (\<lambda>page. page_file page = Some file) pages \<or>
      list_ex (\<lambda>page. case page_children page of
                         None \<Rightarrow> False
                       | Some cs \<Rightarrow> isPage file cs) pages)"
  by pat_completeness auto

lemma size_page_children:
  "page \<in> set pages \<Longrightarrow> page_children page = Some cs \<Longrightarrow> size_list size cs < size_list size pages"
proof (induction pages)
  case Nil
  then show ?case by simp
next
  case (Cons p ps)
  show ?case
  proof (cases "page = p")
    case True
    with Cons.prems show ?thesis by (cases p) auto
  next
    case False
    with Cons show ?thesis by fastforce
  qed
qed

termination isPage
  by (relation "measure (\<lambda>(file, pages). size_list size pages)")
     (auto simp: size_page_children)

definition isPageOpt :: "string \<Rightarrow> NuxtPage list option \<Rightarrow> bool" where
  "isPageOpt file pages = (case pages of None \<Rightarrow> False | Some ps \<Rightarrow> isPage file ps)"

definition routesOnly :: "string \<Rightarrow> bool" where
  "routesOnly filename = (filename = ''routes.mjs'')"

text \<open>The handler that regenerates the routes template.\<close>

definition pagesTemplatesWatch :: "PagesWatch \<Rightarrow> WatchEvent \<Rightarrow> string \<Rightarrow> WatchAction option" where
  "pagesTemplatesWatch w event relativePath =
     (let path = resolve (pw_cwd w) (pw_srcDir w) relativePath;
          shouldAlwaysRegenerate = (scanPageMeta w \<and> isPageOpt path (appPages w))
      in if event = Change \<and> \<not> shouldAlwaysRegenerate then None
         else if shouldAlwaysRegenerate \<or>
                 list_ex (\<lambda>dir. startsWith path dir) (updateTemplatePaths w)
         then Some (UpdateTemplates routesOnly)
         else None)"

text \<open>The handler that restarts when the pages setting flips.\<close>

definition pagesEnabledWatch :: "PagesWatch \<Rightarrow> WatchEvent \<Rightarrow> string \<Rightarrow> WatchAction option" where
  "pagesEnabledWatch w event relativePath =
     (let path = resolve (pw_cwd w) (pw_srcDir w) relativePath
      in if list_ex (\<lambda>p. p = path \<or> startsWith path (p @ ''/'')) (restartPaths w)
         then (let newSetting = fst (isPagesEnabled (currentSetup w))
               in if optionsPages w \<noteq> newSetting then Some (Restart False) else None)
         else None)"

subsection \<open>The handler of the core\<close>

text \<open>
  \<open>RESTART_RE = /^(app|error|app\.config)\.(js|ts|mjs|jsx|tsx|vue)$/i\<close>: the whole string
  is one of three base names, a dot and one of six extensions, letter case ignored.
\<close>

definition toLower :: "char \<Rightarrow> char" where
  "toLower c =
     (case map_of (zip ''ABCDEFGHIJKLMNOPQRSTUVWXYZ'' ''abcdefghijklmnopqrstuvwxyz'') c of
        Some l \<Rightarrow> l
      | None \<Rightarrow> c)"

definition RESTART_RE_test :: "string \<Rightarrow> bool" where
  "RESTART_RE_test s =
     (map toLower s \<in> set (concat (map (\<lambda>b. map (\<lambda>e. b @ ''.'' @ e)
        [''js'', ''ts'', ''mjs'', ''jsx'', ''tsx'', ''vue''])
        [''app'', ''error'', ''app.config''])))"

text \<open>
  A watch pattern of \<open>nuxt.options.watch\<close> is a string or a regular expression; a regular
  expression is represented by its \<open>test\<close>.
\<close>

datatype WatchPattern = PatString string | PatRegExp "string \<Rightarrow> bool"

record Layer =
  layer_srcDir :: string
  layer_cwd :: string

record CoreWatch =
  cw_cwd :: string
  cw_srcDir :: string
  watchedPaths :: "string set"
  layers :: "Layer list"
  watch :: "WatchPattern list"

definition patternMatches :: "string \<Rightarrow> string list \<Rightarrow> WatchPattern \<Rightarrow> bool" where
  "patternMatches path layerRelativePaths pattern =
     (case pattern of
        PatString s \<Rightarrow> s = path \<or> s \<in> set layerRelativePaths
      | PatRegExp t \<Rightarrow> list_ex t layerRelativePaths)"

definition coreWatch :: "CoreWatch \<Rightarrow> WatchEvent \<Rightarrow> string \<Rightarrow> WatchAction option" where
  "coreWatch w event relativePath =
     (let path = resolve (cw_cwd w) (cw_srcDir w) relativePath in
      if path \<in> watchedPaths w then Some (Restart True)
      else
        (let layerRelativePaths =
               map (\<lambda>l. relative (cw_cwd w)
                          (if layer_srcDir l \<noteq> [] then layer_srcDir l else layer_cwd l) path)
                   (layers w)
         in if list_ex (patternMatches path layerRelativePaths) (watch w)
            then Some (Restart False)
            else
              (let isFileChange = (event = Add \<or> event = Unlink)
               in if isFileChange \<and> RESTART_RE_test path then Some (Restart False)
                  else None)))"

section \<open>The app generator\<close>

subsection \<open>Templates and the virtual file system\<close>

text \<open>
  A resolved template, as far as \<open>generateApp\<close> reads it. What \<open>compileTemplate\<close>
  returns for a template is a parameter (\<open>None\<close>: the compilation throws); the build
  directory, the working directory and the platform come with it.
\<close>

record Template =
  t_filename :: string
  t_dst :: "string option"
  t_src :: "string option"
  t_write :: bool

record GenEnv =
  g_cwd :: string
  buildDir :: string
  win32 :: bool
  compileTemplate :: "Template \<Rightarrow> string option"

text \<open>
  \<open>nuxt.vfs\<close> is a plain object from paths to contents, read and written by key. Its keys
  are paths; none of them is the name of a member of \<open>Object.prototype\<close>.
\<close>

type_synonym vfs = "string \<rightharpoonup> string"

text \<open>\<open>template.dst || resolve(nuxt.options.buildDir, template.filename)\<close>\<close>

definition fullPath :: "GenEnv \<Rightarrow> Template \<Rightarrow> string" where
  "fullPath env t =
     (case t_dst t of
        Some d \<Rightarrow> if d \<noteq> [] then d else resolve (g_cwd env) (buildDir env) (t_filename t)
      | None \<Rightarrow> resolve (g_cwd env) (buildDir env) (t_filename t))"

text \<open>
  \<open>filename.replace(/\.\w+$/, '')\<close>: a final dot followed by one or more word characters
  up to the end of the name is removed.
\<close>

definition isWordChar :: "char \<Rightarrow> bool" where
  "isWordChar c =
     (c \<in> set ''ABCDEFGHIJKLMNOPQRSTUVWXYZabcdefghijklmnopqrstuvwxyz0123456789_'')"

definition stripExtension :: "string \<Rightarrow> string" where
  "stripExtension s =
     (case dropWhile isWordChar (rev s) of
        [] \<Rightarrow> s
      | c # rest \<Rightarrow>
          if c = CHR ''.'' \<and> takeWhile isWordChar (rev s) \<noteq> [] then rev rest else s)"

definition aliasPath :: "Template \<Rightarrow> string" where
  "aliasPath t = ''#build/'' @ stripExtension (t_filename t)"

text \<open>\<open>fullPath.replace(/\//g, '\\')\<close>\<close>

definition windowsPath :: "string \<Rightarrow> string" where
  "windowsPath p = map (\<lambda>c. if c = CHR ''/'' then CHR 0x5C else c) p"

text \<open>The keys of the virtual file system under which a modified template is stored.\<close>

definition writtenKeys :: "GenEnv \<Rightarrow> Template \<Rightarrow> string list" where
  "writtenKeys env t =
     [fullPath env t, aliasPath t] @
     (if win32 env then [windowsPath (fullPath env t)] else [])"

text \<open>
  The state one generation pass works on: the virtual file system, the \<open>modified\<close> flag
  of each template (by position; \<open>None\<close> while it has not been assigned), the queued
  writes and the templates whose compilation was reported as failed.
\<close>

record GenState =
  s_vfs :: vfs
  s_modified :: "nat \<rightharpoonup> bool"
  s_writes :: "(string \<times> string) list"
  s_failed :: "string list"

text \<open>
  The callback of \<open>filteredTemplates.map\<close> runs up to its only \<open>await\<close> at once, so every
  template reads its \<open>oldContents\<close> before any compilation has finished. \<open>complete\<close> is
  the rest of the callback, which runs without interruption when the compilation of
  template \<open>i\<close> settles.
\<close>

definition complete :: "GenEnv \<Rightarrow> Template list \<Rightarrow> string option list \<Rightarrow> nat \<Rightarrow> GenState \<Rightarrow> GenState" where
  "complete env ts olds i st =
     (let t = ts ! i in
      case compileTemplate env t of
        None \<Rightarrow> st\<lparr>s_failed := s_failed st @ [t_filename t]\<rparr>
      | Some contents \<Rightarrow>
          (let modified = (olds ! i \<noteq> Some contents);
               vfs1 = (if modified
                       then fold (\<lambda>k m. m(k \<mapsto> contents)) (writtenKeys env t) (s_vfs st)
                       else s_vfs st);
               writes1 = (if modified \<and> t_write t
                          then s_writes st @ [(fullPath env t, contents)]
                          else s_writes st)
           in st\<lparr>s_vfs := vfs1,
                 s_modified := (s_modified st)(i \<mapsto> modified),
                 s_writes := writes1\<rparr>))"

text \<open>
  The result of a pass: the virtual file system, the flags, the files physically written
  (in order) and the argument of the \<open>app:templatesGenerated\<close> hook when it is called.
\<close>

record GenResult =
  r_vfs :: vfs
  r_modified :: "bool option list"
  r_written :: "(string \<times> string) list"
  r_failed :: "string list"
  r_changedTemplates :: "Template list option"

text \<open>
  \<open>generateApp\<close> from the point where the templates are normalized. The order in which
  the compilations settle is not fixed by the program: \<open>settled\<close> lists the positions of
  the filtered templates in that order.
\<close>

definition filterTemplates :: "(Template \<Rightarrow> bool) option \<Rightarrow> Template list \<Rightarrow> Template list" where
  "filterTemplates tfilter templates =
     filter (\<lambda>t. case tfilter of None \<Rightarrow> True | Some f \<Rightarrow> f t) templates"

definition generateApp ::
  "GenEnv \<Rightarrow> (Template \<Rightarrow> bool) option \<Rightarrow> nat list \<Rightarrow> Template list \<Rightarrow> vfs \<Rightarrow> GenResult" where
  "generateApp env tfilter settled templates vfs0 =
     (let filteredTemplates = filterTemplates tfilter templates;
          olds = map (\<lambda>t. vfs0 (fullPath env t)) filteredTemplates;
          st = fold (complete env filteredTemplates olds)
                 (filter (\<lambda>i. i < length filteredTemplates) settled)
                 \<lparr>s_vfs = vfs0, s_modified = Map.empty, s_writes = [], s_failed = []\<rparr>;
          flags = map (s_modified st) [0..<length filteredTemplates];
          changedTemplates =
            map fst (filter (\<lambda>(t, m). m = Some True) (zip filteredTemplates flags))
      in \<lparr>r_vfs = s_vfs st,
          r_modified = flags,
          r_written = s_writes st,
          r_failed = s_failed st,
          r_changedTemplates = (if changedTemplates \<noteq> [] then Some changedTemplates else None)\<rparr>)"

subsection \<open>Resolving layouts, middleware and plugins\<close>

record Middleware =
  mw_name :: string
  mw_path :: string
  mw_global :: bool

text \<open>
  A JavaScript number is \<open>NaN\<close>, an infinity or a finite double. A finite double is
  modelled by its value, a real number.
\<close>

datatype number = NaN | NegInfinity | Finite real | PosInfinity

text \<open>
  A plugin object. An optional property is \<open>None\<close> when reading it gives \<open>undefined\<close>;
  \<open>p_undefined\<close> lists the names of the properties that the object does have as its
  own, with the value \<open>undefined\<close> (as in \<open>{ src, order: undefined }\<close>).
\<close>

record Plugin =
  p_src :: string
  p_mode :: "string option"
  p_order :: "number option"
  p_name :: "string option"
  p_dependsOn :: "string list option"
  p_parallel :: "bool option"
  p_undefined :: "string list"

datatype PluginInput = PluginString string | PluginObject Plugin

text \<open>
  \<open>app.layouts\<close> is a plain object. A name that the object inherits (a member of
  \<open>Object.prototype\<close>) is already truthy before any layout is stored under it, so the
  assignment \<open>app.layouts[name] = app.layouts[name] || { name, file }\<close> stores the inherited
  member, and nothing at all for \<open>__proto__\<close>.
\<close>

datatype LayoutSlot = LayoutEntry string string | InheritedMember string

definition objectPrototypeKeys :: "string list" where
  "objectPrototypeKeys =
     [''constructor'', ''toString'', ''toLocaleString'', ''valueOf'', ''hasOwnProperty'',
      ''isPrototypeOf'', ''propertyIsEnumerable'', ''__proto__'', ''__defineGetter__'',
      ''__defineSetter__'', ''__lookupGetter__'', ''__lookupSetter__'']"

definition storeLayout :: "string \<Rightarrow> string \<Rightarrow> (string \<rightharpoonup> LayoutSlot) \<Rightarrow> (string \<rightharpoonup> LayoutSlot)" where
  "storeLayout name file layouts =
     (case layouts name of
        Some slot \<Rightarrow> layouts
      | None \<Rightarrow>
          if name \<in> set objectPrototypeKeys
          then (if name = ''__proto__'' then layouts else layouts(name \<mapsto> InheritedMember name))
          else layouts(name \<mapsto> LayoutEntry name file))"

datatype Warning = NoLayoutName string | NoMiddlewareName string

record LayerConfig =
  lc_srcDir :: string
  lc_rootDir :: string
  lc_dir_layouts :: "string option"
  lc_dir_middleware :: "string option"
  lc_dir_plugins :: "string option"
  lc_plugins :: "PluginInput list"

record App =
  app_layouts :: "string \<rightharpoonup> LayoutSlot"
  app_middleware :: "Middleware list"
  app_plugins :: "Plugin list"

text \<open>
  What \<open>resolveApp\<close> reads from the options, and its collaborators: \<open>resolveFiles\<close>,
  \<open>normalizePlugin\<close> and \<open>resolvePath\<close> after \<open>resolveAlias\<close> (from the kit),
  \<open>getNameFromPath\<close> and \<open>hasSuffix\<close> (from \<open>./utils\<close>, not among the sources) and the
  handlers of the \<open>app:resolve\<close> hook. They are parameters.
\<close>

record AppEnv =
  a_cwd :: string
  a_rootDir :: string
  a_srcDir :: string
  a_extensions :: "string list"
  a_dir_layouts :: "string option"
  a_dir_middleware :: "string option"
  a_dir_plugins :: "string option"
  a_layers :: "LayerConfig list"
  a_plugins :: "PluginInput list"
  resolveFiles :: "string \<Rightarrow> string list \<Rightarrow> string list"
  getNameFromPath :: "string \<Rightarrow> string option \<Rightarrow> string"
  hasSuffix :: "string \<Rightarrow> string \<Rightarrow> bool"
  normalizePlugin :: "PluginInput \<Rightarrow> Plugin"
  resolvePath :: "string \<Rightarrow> string"
  appResolveHook :: "App \<Rightarrow> App"

text \<open>\<open>x || fallback\<close> on an optional string.\<close>

definition orElse :: "string option \<Rightarrow> string \<Rightarrow> string" where
  "orElse x fallback = (case x of None \<Rightarrow> fallback | Some v \<Rightarrow> if v = [] then fallback else v)"

definition extensionGlob :: "AppEnv \<Rightarrow> string" where
  "extensionGlob env = ''{'' @ joinWith '','' (a_extensions env) @ ''}''"

definition layoutDir :: "AppEnv \<Rightarrow> LayerConfig \<Rightarrow> string" where
  "layoutDir env config =
     orElse (if lc_rootDir config = a_rootDir env then a_dir_layouts env
             else lc_dir_layouts config) ''layouts''"

definition middlewareDir :: "AppEnv \<Rightarrow> LayerConfig \<Rightarrow> string" where
  "middlewareDir env config =
     orElse (if lc_rootDir config = a_rootDir env then a_dir_middleware env
             else lc_dir_middleware config) ''middleware''"

definition pluginDir :: "AppEnv \<Rightarrow> LayerConfig \<Rightarrow> string" where
  "pluginDir env config =
     orElse (if lc_rootDir config = a_rootDir env then a_dir_plugins env
             else lc_dir_plugins config) ''plugins''"

definition layoutFiles :: "AppEnv \<Rightarrow> LayerConfig \<Rightarrow> string list" where
  "layoutFiles env config =
     resolveFiles env (lc_srcDir config) [layoutDir env config @ ''/**/*'' @ extensionGlob env]"

definition middlewareFiles :: "AppEnv \<Rightarrow> LayerConfig \<Rightarrow> string list" where
  "middlewareFiles env config =
     resolveFiles env (lc_srcDir config) [middlewareDir env config @ ''/*'' @ extensionGlob env]"

definition pluginFiles :: "AppEnv \<Rightarrow> LayerConfig \<Rightarrow> string list" where
  "pluginFiles env config =
     (if lc_srcDir config \<noteq> []
      then resolveFiles env (lc_srcDir config)
             [pluginDir env config @ ''/*'' @ extensionGlob env,
              pluginDir env config @ ''/*/index'' @ extensionGlob env]
      else [])"

text \<open>The name a layout file gets, and the loop over the layout files of one layer.\<close>

definition layoutName :: "AppEnv \<Rightarrow> LayerConfig \<Rightarrow> string \<Rightarrow> string" where
  "layoutName env config file =
     getNameFromPath env file
       (Some (resolve (a_cwd env) (lc_srcDir config) (layoutDir env config)))"

fun layoutLoop ::
  "AppEnv \<Rightarrow> LayerConfig \<Rightarrow> string list \<Rightarrow> (string \<rightharpoonup> LayoutSlot) \<times> Warning list \<Rightarrow>
   (string \<rightharpoonup> LayoutSlot) \<times> Warning list" where
  "layoutLoop env config [] st = st"
| "layoutLoop env config (file # files) (layouts, warnings) =
     (let name = layoutName env config file in
      if name = []
      then layoutLoop env config files
             (layouts, warnings @ [NoLayoutName (relative (a_cwd env) (a_srcDir env) file)])
      else layoutLoop env config files (storeLayout name file layouts, warnings))"

definition resolveLayouts :: "AppEnv \<Rightarrow> (string \<rightharpoonup> LayoutSlot) \<times> Warning list" where
  "resolveLayouts env =
     fold (\<lambda>config st. layoutLoop env config (layoutFiles env config) st)
          (a_layers env) (Map.empty, [])"

fun middlewareLoop ::
  "AppEnv \<Rightarrow> string list \<Rightarrow> Middleware list \<times> Warning list \<Rightarrow> Middleware list \<times> Warning list" where
  "middlewareLoop env [] st = st"
| "middlewareLoop env (file # files) (middleware, warnings) =
     (let name = getNameFromPath env file None in
      if name = []
      then middlewareLoop env files
             (middleware, warnings @ [NoMiddlewareName (relative (a_cwd env) (a_srcDir env) file)])
      else middlewareLoop env files
             (middleware @ [\<lparr>mw_name = name, mw_path = file,
                              mw_global = hasSuffix env file ''.global''\<rparr>], warnings))"

definition resolveMiddleware :: "AppEnv \<Rightarrow> Middleware list \<times> Warning list" where
  "resolveMiddleware env =
     fold (\<lambda>config st. middlewareLoop env (middlewareFiles env config) st)
          (rev (a_layers env)) ([], [])"

text \<open>Plugins: first the extended layers, then the base; then the plugins of the options.\<close>

definition layerPlugins :: "AppEnv \<Rightarrow> LayerConfig \<Rightarrow> Plugin list" where
  "layerPlugins env config =
     map (normalizePlugin env)
         (lc_plugins config @ map PluginString (pluginFiles env config))"

definition resolvePlugins :: "AppEnv \<Rightarrow> Plugin list" where
  "resolvePlugins env =
     fold (\<lambda>config plugins. plugins @ layerPlugins env config) (rev (a_layers env)) []"

definition addBack :: "AppEnv \<Rightarrow> PluginInput \<Rightarrow> Plugin list \<Rightarrow> Plugin list" where
  "addBack env p plugins =
     (let plugin = normalizePlugin env p in
      if \<not> list_ex (\<lambda>q. p_src q = p_src plugin) plugins then plugin # plugins else plugins)"

definition addBackPlugins :: "AppEnv \<Rightarrow> Plugin list \<Rightarrow> Plugin list" where
  "addBackPlugins env plugins = fold (addBack env) (rev (a_plugins env)) plugins"

text \<open>
  Modelled from the spec: \<open>uniqueBy\<close> is imported from \<open>./utils\<close>, which is not among the
  sources. The spec says that entries are de-duplicated by a key (section 4.4) and that
  for middleware the later layer wins (section 3); middleware are collected with the
  later layers last and de-duplicated as \<open>uniqueBy(reversed).reverse()\<close>, so \<open>uniqueBy\<close>
  keeps, for each key, the first item of its argument, in order: a loop over the array
  with the set of the keys seen so far.
\<close>

fun uniqueByLoop :: "('a \<Rightarrow> 'k) \<Rightarrow> 'a list \<Rightarrow> 'k list \<Rightarrow> 'a list \<Rightarrow> 'a list" where
  "uniqueByLoop key [] seen res = res"
| "uniqueByLoop key (item # arr) seen res =
     (if key item \<in> set seen then uniqueByLoop key arr seen res
      else uniqueByLoop key arr (key item # seen) (res @ [item]))"

definition uniqueBy :: "'a list \<Rightarrow> ('a \<Rightarrow> 'k) \<Rightarrow> 'a list" where
  "uniqueBy arr key = uniqueByLoop key arr [] []"

text \<open>\<open>resolvePaths\<close> on the \<open>path\<close> of middleware and on the \<open>src\<close> of plugins.\<close>

definition resolveMiddlewarePaths :: "AppEnv \<Rightarrow> Middleware list \<Rightarrow> Middleware list" where
  "resolveMiddlewarePaths env items =
     map (\<lambda>item. if mw_path item = [] then item
                 else item\<lparr>mw_path := resolvePath env (mw_path item)\<rparr>) items"

definition resolvePluginPaths :: "AppEnv \<Rightarrow> Plugin list \<Rightarrow> Plugin list" where
  "resolvePluginPaths env items =
     map (\<lambda>item. if p_src item = [] then item
                 else item\<lparr>p_src := resolvePath env (p_src item)\<rparr>) items"

text \<open>
  \<open>resolveApp\<close>, for its layouts, middleware and plugins: the app as it is handed to the
  \<open>app:resolve\<close> hook, and the app after the second de-duplication.
\<close>

definition resolveAppBeforeHook :: "AppEnv \<Rightarrow> App \<times> Warning list" where
  "resolveAppBeforeHook env =
     (let (layouts, w1) = resolveLayouts env;
          (middleware, w2) = resolveMiddleware env;
          plugins = addBackPlugins env (resolvePlugins env)
      in (\<lparr>app_layouts = layouts,
           app_middleware =
             rev (uniqueBy (resolveMiddlewarePaths env (rev middleware)) mw_name),
           app_plugins = uniqueBy (resolvePluginPaths env plugins) p_src\<rparr>,
          w1 @ w2))"

definition resolveApp :: "AppEnv \<Rightarrow> App \<times> Warning list" where
  "resolveApp env =
     (let (app0, warnings) = resolveAppBeforeHook env;
          app = appResolveHook env app0
      in (app\<lparr>app_middleware :=
                 uniqueBy (resolveMiddlewarePaths env (app_middleware app)) mw_name,
               app_plugins :=
                 uniqueBy (resolvePluginPaths env (app_plugins app)) p_src\<rparr>,
          warnings))"

subsection \<open>Plugin metadata and order\<close>

record PluginMeta =
  m_name :: "string option"
  m_order :: "number option"
  m_dependsOn :: "string list option"
  m_parallel :: "bool option"

datatype ReadError = InvalidPluginMetadata | OtherError string

datatype PluginWarning = InvalidMetadataWarning string | ParseFailedWarning string string

text \<open>
  \<open>extractMetadata\<close> and \<open>orderMap\<close> come from \<open>./plugins/plugin-metadata\<close>, which is not
  among the sources: the extraction and the constant \<open>orderMap.default\<close> are parameters,
  as is reading a file.
\<close>

record AnnotateEnv =
  an_cwd :: string
  an_rootDir :: string
  an_vfs :: vfs
  readFile :: "string \<Rightarrow> ReadError + string"
  extractMetadata :: "string \<Rightarrow> ReadError + PluginMeta"
  orderMap_default :: number

text \<open>
  \<open>{ ...meta, ...plugin }\<close>: an own property of the plugin overrides the one of the
  metadata, also when its value is \<open>undefined\<close>.
\<close>

definition override :: "bool \<Rightarrow> 'a option \<Rightarrow> 'a option \<Rightarrow> 'a option" where
  "override ownUndefined fromMeta fromPlugin =
     (case fromPlugin of
        Some v \<Rightarrow> Some v
      | None \<Rightarrow> if ownUndefined then None else fromMeta)"

definition mergeMeta :: "PluginMeta \<Rightarrow> Plugin \<Rightarrow> Plugin" where
  "mergeMeta meta plugin =
     plugin\<lparr>p_order :=
              override (''order'' \<in> set (p_undefined plugin)) (m_order meta) (p_order plugin),
            p_name :=
              override (''name'' \<in> set (p_undefined plugin)) (m_name meta) (p_name plugin),
            p_dependsOn :=
              override (''dependsOn'' \<in> set (p_undefined plugin)) (m_dependsOn meta)
                (p_dependsOn plugin),
            p_parallel :=
              override (''parallel'' \<in> set (p_undefined plugin)) (m_parallel meta)
                (p_parallel plugin)\<rparr>"

definition pluginWarning :: "AnnotateEnv \<Rightarrow> Plugin \<Rightarrow> ReadError \<Rightarrow> PluginWarning" where
  "pluginWarning env plugin e =
     (let relativePluginSrc = relative (an_cwd env) (an_rootDir env) (p_src plugin) in
      case e of
        InvalidPluginMetadata \<Rightarrow> InvalidMetadataWarning relativePluginSrc
      | OtherError msg \<Rightarrow> ParseFailedWarning relativePluginSrc msg)"

definition annotateOne :: "AnnotateEnv \<Rightarrow> Plugin \<Rightarrow> Plugin \<times> PluginWarning option" where
  "annotateOne env plugin =
     (case (case an_vfs env (p_src plugin) of
              Some code \<Rightarrow> Inr code
            | None \<Rightarrow> readFile env (p_src plugin)) of
        Inl e \<Rightarrow> (plugin, Some (pluginWarning env plugin e))
      | Inr code \<Rightarrow>
          (case extractMetadata env code of
             Inl e \<Rightarrow> (plugin, Some (pluginWarning env plugin e))
           | Inr meta \<Rightarrow> (mergeMeta meta plugin, None)))"

text \<open>\<open>a.order ?? orderMap.default\<close>\<close>

definition orderKey :: "number \<Rightarrow> Plugin \<Rightarrow> number" where
  "orderKey dflt plugin = (case p_order plugin of Some n \<Rightarrow> n | None \<Rightarrow> dflt)"

text \<open>
  The difference of two numbers. With \<open>NaN\<close> it is \<open>NaN\<close>, and so is the difference of
  an infinity and itself. The difference of two finite doubles is rounded, but it is
  negative, zero or positive as the exact difference is, and the sort reads nothing else
  of it.
\<close>

definition numSub :: "number \<Rightarrow> number \<Rightarrow> number" where
  "numSub a b =
     (case a of
        NaN \<Rightarrow> NaN
      | NegInfinity \<Rightarrow>
          (case b of NaN \<Rightarrow> NaN | NegInfinity \<Rightarrow> NaN | Finite y \<Rightarrow> NegInfinity
           | PosInfinity \<Rightarrow> NegInfinity)
      | Finite x \<Rightarrow>
          (case b of NaN \<Rightarrow> NaN | NegInfinity \<Rightarrow> PosInfinity | Finite y \<Rightarrow> Finite (x - y)
           | PosInfinity \<Rightarrow> NegInfinity)
      | PosInfinity \<Rightarrow>
          (case b of NaN \<Rightarrow> NaN | NegInfinity \<Rightarrow> PosInfinity | Finite y \<Rightarrow> PosInfinity
           | PosInfinity \<Rightarrow> NaN))"

text \<open>The comparison function of \<open>annotatePlugins\<close>.\<close>

definition compareOrder :: "number \<Rightarrow> Plugin \<Rightarrow> Plugin \<Rightarrow> number" where
  "compareOrder dflt a b = numSub (orderKey dflt a) (orderKey dflt b)"

text \<open>
  \<open>Array.prototype.sort\<close> with a comparison function. The language fixes its result when
  the comparison function is consistent (the result is then the stable sort) and leaves
  the order to the implementation otherwise. The model is what V8, the engine of Node.js,
  does with an array of fewer than 64 elements: it reads a result of the comparison
  function only as "negative or not" (\<open>NaN\<close> counts as 0), takes the run at the start of
  the array, ascending or strictly descending, reversing a descending one
  (\<open>countAndMakeRun\<close>), and inserts each remaining element into the sorted part at the
  place a binary search finds (\<open>binaryInsertionSort\<close>). On longer arrays V8 sorts runs
  this way and merges them, which gives the same result whenever the comparison function
  is consistent; with an inconsistent one the model is V8's result below 64 elements only.
\<close>

definition isNegative :: "number \<Rightarrow> bool" where
  "isNegative n =
     (case n of NaN \<Rightarrow> False | NegInfinity \<Rightarrow> True | Finite x \<Rightarrow> x < 0
      | PosInfinity \<Rightarrow> False)"

fun runLength :: "('a \<Rightarrow> 'a \<Rightarrow> bool) \<Rightarrow> bool \<Rightarrow> 'a \<Rightarrow> 'a list \<Rightarrow> nat" where
  "runLength precedes isDescending previousElement [] = 0"
| "runLength precedes isDescending previousElement (currentElement # rest) =
     (if (if isDescending then \<not> precedes currentElement previousElement
          else precedes currentElement previousElement)
      then 0
      else Suc (runLength precedes isDescending currentElement rest))"

definition countAndMakeRun :: "('a \<Rightarrow> 'a \<Rightarrow> bool) \<Rightarrow> 'a list \<Rightarrow> 'a list \<times> nat" where
  "countAndMakeRun precedes xs =
     (case xs of
        elementHigh # elementLow # rest \<Rightarrow>
          (let isDescending = precedes elementLow elementHigh;
               n = 2 + runLength precedes isDescending elementLow rest
           in (if isDescending then rev (take n xs) @ drop n xs else xs, n))
      | _ \<Rightarrow> (xs, length xs))"

function findSlot :: "('a \<Rightarrow> 'a \<Rightarrow> bool) \<Rightarrow> 'a \<Rightarrow> 'a list \<Rightarrow> nat \<Rightarrow> nat \<Rightarrow> nat" where
  "findSlot precedes pivot ws left right =
     (if left < right
      then (let mid = left + (right - left) div 2 in
            if precedes pivot (ws ! mid) then findSlot precedes pivot ws left mid
            else findSlot precedes pivot ws (mid + 1) right)
      else left)"
  by pat_completeness auto

termination findSlot
  by (relation "measure (\<lambda>(precedes, pivot, ws, left, right). right - left)") auto

fun binaryInsertionSort :: "('a \<Rightarrow> 'a \<Rightarrow> bool) \<Rightarrow> 'a list \<Rightarrow> 'a list \<Rightarrow> 'a list" where
  "binaryInsertionSort precedes run [] = run"
| "binaryInsertionSort precedes run (pivot # rest) =
     (let left = findSlot precedes pivot run 0 (length run)
      in binaryInsertionSort precedes (take left run @ pivot # drop left run) rest)"

definition arraySort :: "('a \<Rightarrow> 'a \<Rightarrow> number) \<Rightarrow> 'a list \<Rightarrow> 'a list" where
  "arraySort comparefn xs =
     (let precedes = (\<lambda>x y. isNegative (comparefn x y)) in
      if length xs < 2 then xs
      else (let (ws, n) = countAndMakeRun precedes xs
            in binaryInsertionSort precedes (take n ws) (drop n ws)))"

definition annotated :: "AnnotateEnv \<Rightarrow> Plugin list \<Rightarrow> Plugin list" where
  "annotated env plugins = map (\<lambda>plugin. fst (annotateOne env plugin)) plugins"

definition annotatePlugins :: "AnnotateEnv \<Rightarrow> Plugin list \<Rightarrow> Plugin list \<times> PluginWarning list" where
  "annotatePlugins env plugins =
     (arraySort (compareOrder (orderMap_default env)) (annotated env plugins),
      concat (map (\<lambda>plugin. case snd (annotateOne env plugin) of
                              None \<Rightarrow> [] | Some w \<Rightarrow> [w]) plugins))"

subsection \<open>Dependency diagnostics\<close>

text \<open>
  The two messages written with \<open>console.error\<close>: the name of the plugin with the
  dependencies that are not registered, and the cycle, which is \<open>visited\<close> followed by
  the repeated name. \<open>render\<close> is the text of the message.
\<close>

datatype Diagnostic =
    MissingDependencies "string option" "string list"
  | CircularDependency "string list"

definition render :: "Diagnostic \<Rightarrow> string" where
  "render d =
     (case d of
        MissingDependencies name missing \<Rightarrow>
          ''Plugin `'' @ (case name of None \<Rightarrow> ''undefined'' | Some n \<Rightarrow> n) @
          ''` depends on `'' @ joinWith '', '' missing @ ''` but they are not registered.''
      | CircularDependency names \<Rightarrow>
          ''Circular dependency detected in plugins: '' @ joinWith '' -> '' names)"

text \<open>
  \<open>deps\<close> is an object without prototype: an association list in insertion order, where
  assigning to a key that is present keeps its position. \<open>for (const name in deps)\<close>
  enumerates the keys that are array indices first, in ascending order, then the others in
  insertion order.
\<close>

type_synonym deps = "(string \<times> string list) list"

definition isDigit :: "char \<Rightarrow> bool" where
  "isDigit c = (c \<in> set ''0123456789'')"

definition digitValue :: "char \<Rightarrow> int" where
  "digitValue c =
     (case map_of (zip ''0123456789'' [0, 1, 2, 3, 4, 5, 6, 7, 8, 9]) c of
        Some n \<Rightarrow> n
      | None \<Rightarrow> 0)"

definition decimalValue :: "string \<Rightarrow> int" where
  "decimalValue s = foldl (\<lambda>n c. 10 * n + digitValue c) 0 s"

definition isArrayIndex :: "string \<Rightarrow> bool" where
  "isArrayIndex s =
     (s \<noteq> [] \<and> list_all isDigit s \<and> (s = ''0'' \<or> \<not> startsWith s ''0'') \<and>
      decimalValue s < 4294967295)"

definition forInKeys :: "deps \<Rightarrow> string list" where
  "forInKeys d =
     sort_key decimalValue (filter isArrayIndex (map fst d)) @
     filter (\<lambda>k. \<not> isArrayIndex k) (map fst d)"

definition missingOf :: "string option list \<Rightarrow> Plugin \<Rightarrow> string list" where
  "missingOf pluginNames plugin =
     (case p_dependsOn plugin of
        None \<Rightarrow> []
      | Some ds \<Rightarrow> filter (\<lambda>name. Some name \<notin> set pluginNames) ds)"

definition buildDeps :: "Plugin list \<Rightarrow> deps" where
  "buildDeps plugins =
     fold (\<lambda>plugin d.
             case p_name plugin of
               None \<Rightarrow> d
             | Some name \<Rightarrow>
                 if name \<noteq> []
                 then AList.update name (case p_dependsOn plugin of None \<Rightarrow> [] | Some ds \<Rightarrow> ds) d
                 else d)
          plugins []"

text \<open>
  \<open>checkDeps\<close>, returning the messages it writes, in order (the array it returns in the
  source is always empty).
\<close>

function checkDeps :: "deps \<Rightarrow> string \<Rightarrow> string list \<Rightarrow> Diagnostic list" where
  "checkDeps d name visited =
     (if name \<in> set visited then [CircularDependency (visited @ [name])]
      else (case map_of d name of
              None \<Rightarrow> []
            | Some ds \<Rightarrow>
                if ds \<noteq> []
                then concat (map (\<lambda>dep. checkDeps d dep (visited @ [name])) ds)
                else []))"
  by pat_completeness auto

termination checkDeps
proof (relation "measure (\<lambda>(d, name, visited). card (fst ` set d - set visited))")
  show "wf (measure (\<lambda>(d, name, visited). card (fst ` set d - set visited)))"
    by simp
next
  fix d :: deps and name :: string and visited :: "string list" and ds :: "string list"
    and dep :: string
  assume fresh: "name \<notin> set visited" and found: "map_of d name = Some ds"
  from found have key: "name \<in> fst ` set d"
    by (force dest: map_of_SomeD)
  have "fst ` set d - set (visited @ [name]) \<subset> fst ` set d - set visited"
    using fresh key by auto
  then have "card (fst ` set d - set (visited @ [name])) < card (fst ` set d - set visited)"
    by (intro psubset_card_mono) auto
  then show "((d, dep, visited @ [name]), (d, name, visited))
        \<in> measure (\<lambda>(d, name, visited). card (fst ` set d - set visited))"
    by simp
qed

definition checkForCircularDependencies :: "Plugin list \<Rightarrow> Diagnostic list" where
  "checkForCircularDependencies plugins =
     (let pluginNames = map p_name plugins;
          d = buildDeps plugins
      in concat (map (\<lambda>plugin.
                        if missingOf pluginNames plugin \<noteq> []
                        then [MissingDependencies (p_name plugin) (missingOf pluginNames plugin)]
                        else []) plugins) @
         concat (map (\<lambda>name. checkDeps d name []) (forInKeys d)))"

section \<open>Example inputs\<close>

text \<open>A project at \<open>/project\<close> with one layer, no local module and no watch pattern.\<close>

definition exampleCoreWatch :: CoreWatch where
  "exampleCoreWatch =
     \<lparr>cw_cwd = ''/project'', cw_srcDir = ''/project'', watchedPaths = {},
      layers = [\<lparr>layer_srcDir = ''/project'', layer_cwd = ''/project''\<rparr>],
      watch = []\<rparr>"

definition examplePagesSetup :: PagesSetup where
  "examplePagesSetup =
     \<lparr>userPreference = None, routerOptionsFiles = [],
      pagesDirs = [''/project/pages''], isNonEmptyDir = (\<lambda>dir. dir = ''/project/pages''),
      extendedPages = [NuxtPage ''/'' (Some ''/project/pages/index.vue'') (Some [])]\<rparr>"

definition examplePagesWatch :: PagesWatch where
  "examplePagesWatch =
     \<lparr>pw_cwd = ''/project'', pw_srcDir = ''/project'', scanPageMeta = True,
      appPages = Some [NuxtPage ''/'' (Some ''/project/pages/index.vue'') (Some [])],
      restartPaths = [''/project/app/router.options.ts'', ''/project/pages''],
      updateTemplatePaths =
        [''/project/pages/'', ''/project/layouts/'', ''/project/middleware/''],
      optionsPages = True,
      currentSetup = examplePagesSetup\<rparr>"

text \<open>The two page trees of the prerender example: flat, and nested under \<open>/blog\<close>.\<close>

definition flatBlogPages :: "NuxtPage list" where
  "flatBlogPages =
     [NuxtPage ''/'' None (Some []), NuxtPage ''/blog/:slug?'' None (Some [])]"

definition nestedBlogPages :: "NuxtPage list" where
  "nestedBlogPages =
     [NuxtPage ''/'' None (Some []),
      NuxtPage ''/blog'' None (Some [NuxtPage '':slug?'' None (Some [])])]"

text \<open>The two plugins that depend on each other.\<close>

definition cyclePlugins :: "Plugin list" where
  "cyclePlugins =
     [\<lparr>p_src = ''/project/plugins/a.ts'', p_mode = None, p_order = None,
       p_name = Some ''a'', p_dependsOn = Some [''b''], p_parallel = None,
       p_undefined = []\<rparr>,
      \<lparr>p_src = ''/project/plugins/b.ts'', p_mode = None, p_order = None,
       p_name = Some ''b'', p_dependsOn = Some [''a''], p_parallel = None,
       p_undefined = []\<rparr>]"

section \<open>Predicates of the statements and further example inputs\<close>

text \<open>
  A cycle report for the graph \<open>d\<close>: a path whose last name already occurs on it, without
  another repetition, and not longer than the number of entries of the graph plus one.
\<close>

definition isCycle :: "deps \<Rightarrow> Diagnostic \<Rightarrow> bool" where
  "isCycle d dg =
     (case dg of
        CircularDependency names \<Rightarrow>
          names \<noteq> [] \<and> distinct (butlast names) \<and> last names \<in> set (butlast names) \<and>
          length names \<le> Suc (length d)
      | MissingDependencies name missing \<Rightarrow> False)"

definition isMissing :: "Diagnostic \<Rightarrow> bool" where
  "isMissing dg =
     (case dg of
        MissingDependencies name missing \<Rightarrow> missing \<noteq> []
      | CircularDependency names \<Rightarrow> False)"

text \<open>A plugin with its dependency declaration removed.\<close>

definition eraseDeps :: "Plugin \<Rightarrow> Plugin" where
  "eraseDeps plugin = plugin\<lparr>p_dependsOn := None\<rparr>"

text \<open>
  What the loops of \<open>resolveApp\<close> are expected to produce for one layer: a warning for
  each file without a name, and a middleware entry for each file with one.
\<close>

definition layoutWarnings :: "AppEnv \<Rightarrow> LayerConfig \<Rightarrow> Warning list" where
  "layoutWarnings env config =
     map (\<lambda>file. NoLayoutName (relative (a_cwd env) (a_srcDir env) file))
         (filter (\<lambda>file. layoutName env config file = []) (layoutFiles env config))"

definition middlewareWarnings :: "AppEnv \<Rightarrow> LayerConfig \<Rightarrow> Warning list" where
  "middlewareWarnings env config =
     map (\<lambda>file. NoMiddlewareName (relative (a_cwd env) (a_srcDir env) file))
         (filter (\<lambda>file. getNameFromPath env file None = []) (middlewareFiles env config))"

definition namedMiddleware :: "AppEnv \<Rightarrow> LayerConfig \<Rightarrow> Middleware list" where
  "namedMiddleware env config =
     map (\<lambda>file. \<lparr>mw_name = getNameFromPath env file None, mw_path = file,
                   mw_global = hasSuffix env file ''.global''\<rparr>)
         (filter (\<lambda>file. getNameFromPath env file None \<noteq> []) (middlewareFiles env config))"

text \<open>
  The layout entries of a store are well named: none under the empty name, and each under
  the non-empty name that one of the layers derives for its file.
\<close>

definition wellNamed :: "AppEnv \<Rightarrow> (string \<rightharpoonup> LayoutSlot) \<Rightarrow> bool" where
  "wellNamed env layouts =
     (layouts [] = None \<and>
      (\<forall>key name file. layouts key = Some (LayoutEntry name file) \<longrightarrow>
         name = key \<and> name \<noteq> [] \<and>
         list_ex (\<lambda>config. file \<in> set (layoutFiles env config) \<and>
                            layoutName env config file = name) (a_layers env)))"

text \<open>
  A project at \<open>/project\<close> that extends a layer at \<open>/base\<close>. Each layer has a layout
  \<open>default.vue\<close> and a middleware \<open>auth.ts\<close>, and an \<open>index\<close> file next to each, for
  which no name is derived. Both layers declare the plugin \<open>/shared/plugin.ts\<close>, the
  project for the server and the base layer for the client.
\<close>

definition sharedPlugin :: "string \<Rightarrow> Plugin" where
  "sharedPlugin mode =
     \<lparr>p_src = ''/shared/plugin.ts'', p_mode = Some mode, p_order = None, p_name = None,
      p_dependsOn = None, p_parallel = None, p_undefined = []\<rparr>"

definition exampleAppEnv :: AppEnv where
  "exampleAppEnv =
     \<lparr>a_cwd = ''/project'', a_rootDir = ''/project'', a_srcDir = ''/project'',
      a_extensions = [''.ts'', ''.vue''],
      a_dir_layouts = None, a_dir_middleware = None, a_dir_plugins = None,
      a_layers =
        [\<lparr>lc_srcDir = ''/project'', lc_rootDir = ''/project'', lc_dir_layouts = None,
          lc_dir_middleware = None, lc_dir_plugins = None,
          lc_plugins = [PluginObject (sharedPlugin ''server'')]\<rparr>,
         \<lparr>lc_srcDir = ''/base'', lc_rootDir = ''/base'', lc_dir_layouts = None,
          lc_dir_middleware = None, lc_dir_plugins = None,
          lc_plugins = [PluginObject (sharedPlugin ''client'')]\<rparr>],
      a_plugins = [],
      resolveFiles =
        (\<lambda>dir patterns.
           case patterns of
             [] \<Rightarrow> []
           | pattern # _ \<Rightarrow>
               if startsWith pattern ''layouts/''
               then [dir @ ''/layouts/default.vue'', dir @ ''/layouts/index.vue'']
               else if startsWith pattern ''middleware/''
               then [dir @ ''/middleware/auth.ts'', dir @ ''/middleware/index.ts'']
               else []),
      getNameFromPath =
        (\<lambda>file relativeTo.
           if endsWith file ''/default.vue'' then ''default''
           else if endsWith file ''/auth.ts'' then ''auth''
           else []),
      hasSuffix = (\<lambda>file suffix. False),
      normalizePlugin =
        (\<lambda>input.
           case input of
             PluginString src \<Rightarrow>
               \<lparr>p_src = src, p_mode = Some ''all'', p_order = None, p_name = None,
                p_dependsOn = None, p_parallel = None, p_undefined = []\<rparr>
           | PluginObject plugin \<Rightarrow> plugin),
      resolvePath = (\<lambda>path. path),
      appResolveHook = (\<lambda>app. app)\<rparr>"

text \<open>
  A build directory \<open>/project/.nuxt\<close>; a template compiles to a fixed text when it has no
  source file and to a text naming its source file otherwise.
\<close>

definition exampleGenEnv :: GenEnv where
  "exampleGenEnv =
     \<lparr>g_cwd = ''/project'', buildDir = ''/project/.nuxt'', win32 = False,
      compileTemplate =
        (\<lambda>t. case t_src t of
                None \<Rightarrow> Some (''// '' @ t_filename t)
              | Some src \<Rightarrow> Some (''// from '' @ src))\<rparr>"

text \<open>Two templates with different file names, and two with the same file name.\<close>

definition distinctTemplates :: "Template list" where
  "distinctTemplates =
     [\<lparr>t_filename = ''app.config.mjs'', t_dst = None, t_src = None, t_write = True\<rparr>,
      \<lparr>t_filename = ''routes.mjs'', t_dst = None, t_src = None, t_write = False\<rparr>]"

definition clashingTemplates :: "Template list" where
  "clashingTemplates =
     [\<lparr>t_filename = ''app.config.mjs'', t_dst = None, t_src = None, t_write = True\<rparr>,
      \<lparr>t_filename = ''app.config.mjs'', t_dst = None,
       t_src = Some ''/module/app.config.mjs'', t_write = True\<rparr>]"

text \<open>
  No template stores under the path of another one: the condition under which a second
  pass finds every template as the first pass left it.
\<close>

definition noClash :: "GenEnv \<Rightarrow> Template list \<Rightarrow> bool" where
  "noClash env ts =
     list_all (\<lambda>i. list_all (\<lambda>j. i = j \<or>
                   fullPath env (ts ! i) \<notin> set (writtenKeys env (ts ! j)))
                 [0..<length ts])
       [0..<length ts]"

text \<open>Every template that compiles finds its own contents as old contents.\<close>

definition upToDate :: "GenEnv \<Rightarrow> Template list \<Rightarrow> string option list \<Rightarrow> bool" where
  "upToDate env ts olds =
     (\<forall>i < length ts. \<forall>c. compileTemplate env (ts ! i) = Some c \<longrightarrow> olds ! i = Some c)"

text \<open>
  The order of numbers, as \<open><=\<close> of the language has it: nothing compares with \<open>NaN\<close>.
  \<open>rank\<close> places the numbers other than \<open>NaN\<close> in a linear order that agrees with it.
\<close>

definition numLe :: "number \<Rightarrow> number \<Rightarrow> bool" where
  "numLe a b =
     (case a of
        NaN \<Rightarrow> False
      | NegInfinity \<Rightarrow> b \<noteq> NaN
      | Finite x \<Rightarrow>
          (case b of NaN \<Rightarrow> False | NegInfinity \<Rightarrow> False | Finite y \<Rightarrow> x \<le> y
           | PosInfinity \<Rightarrow> True)
      | PosInfinity \<Rightarrow> b = PosInfinity)"

definition rank :: "number \<Rightarrow> nat \<times> real" where
  "rank n =
     (case n of NaN \<Rightarrow> (3, 0) | NegInfinity \<Rightarrow> (0, 0) | Finite x \<Rightarrow> (1, x)
      | PosInfinity \<Rightarrow> (2, 0))"

text \<open>
  Plugin files without metadata, and three plugins with the orders 5, \<open>NaN\<close> and -5, and
  three with the orders 20, none and -20.
\<close>

definition plainPlugin :: "string \<Rightarrow> number option \<Rightarrow> Plugin" where
  "plainPlugin src order =
     \<lparr>p_src = src, p_mode = None, p_order = order, p_name = None, p_dependsOn = None,
      p_parallel = None, p_undefined = []\<rparr>"

definition exampleAnnotateEnv :: AnnotateEnv where
  "exampleAnnotateEnv =
     \<lparr>an_cwd = ''/project'', an_rootDir = ''/project'',
      an_vfs = (\<lambda>path. Some ''export default defineNuxtPlugin(() => {})''),
      readFile = (\<lambda>path. Inl (OtherError ''ENOENT'')),
      extractMetadata =
        (\<lambda>code. Inr \<lparr>m_name = None, m_order = None, m_dependsOn = None, m_parallel = None\<rparr>),
      orderMap_default = Finite 0\<rparr>"

definition nanPlugins :: "Plugin list" where
  "nanPlugins =
     [plainPlugin ''/project/plugins/a.ts'' (Some (Finite 5)),
      plainPlugin ''/project/plugins/b.ts'' (Some NaN),
      plainPlugin ''/project/plugins/c.ts'' (Some (Finite (- 5)))]"

definition orderedPlugins :: "Plugin list" where
  "orderedPlugins =
     [plainPlugin ''/project/plugins/a.ts'' (Some (Finite 20)),
      plainPlugin ''/project/plugins/b.ts'' None,
      plainPlugin ''/project/plugins/c.ts'' (Some (Finite (- 20)))]"

text \<open>
  A dependency edge of the graph, a path along edges, and the paths that are cycle
  reports from a start: they begin at the start, follow edges, and repeat no name but the
  last one, which is on the path already. \<open>continues\<close> is the same for a traversal that
  has \<open>visited\<close> behind it.
\<close>

definition edge :: "deps \<Rightarrow> string \<Rightarrow> string \<Rightarrow> bool" where
  "edge d u v = (case map_of d u of None \<Rightarrow> False | Some ds \<Rightarrow> v \<in> set ds)"

fun walk :: "deps \<Rightarrow> string list \<Rightarrow> bool" where
  "walk d (u # v # rest) = (edge d u v \<and> walk d (v # rest))"
| "walk d path = True"

definition reportedCycle :: "deps \<Rightarrow> string \<Rightarrow> string list \<Rightarrow> bool" where
  "reportedCycle d start path =
     (take 1 path = [start] \<and> walk d path \<and> distinct (butlast path) \<and>
      last path \<in> set (butlast path))"

definition continues :: "deps \<Rightarrow> string list \<Rightarrow> string \<Rightarrow> string list \<Rightarrow> bool" where
  "continues d visited name q =
     (take 1 q = [name] \<and> walk d q \<and> distinct (visited @ butlast q) \<and>
      last q \<in> set (visited @ butlast q))"

section \<open>Properties of the pages module\<close>

text \<open>
  C10: when the user configuration sets \<open>pages\<close> to a boolean, \<open>isPagesEnabled\<close> returns
  that boolean, whatever the router option files, the pages directories and the resolved
  pages are, and reads none of them.
\<close>

theorem isPagesEnabled_user_preference:
  "isPagesEnabled (s\<lparr>userPreference := Some b\<rparr>) = (b, [])"
  by (simp add: isPagesEnabled_def)

text \<open>
  C5, as stated: for the pages \<open>/\<close> and \<open>/blog/:slug?\<close> the prerender set would be
  \<open>/\<close> and \<open>/blog\<close>. It is not: \<open>/blog\<close> is never added.
\<close>

theorem prerender_flat_blog_counterexample:
  "set (prerenderRoutes flatBlogPages) \<noteq> {''/'', ''/blog''}"
  by (simp add: prerenderRoutes_def flatBlogPages_def OPTIONAL_PARAM_RE_test_def
      startsWith_def endsWith_def joinURL_def isNonEmptyURL_def set_add_def)

text \<open>
  C5, amended: for the pages \<open>/\<close> and \<open>/blog/:slug?\<close> the prerender set is \<open>/\<close> alone:
  the page with the parameter is skipped, and its path does not begin with the parameter,
  so its parent path is not added either. When the optional parameter is a child of a
  page \<open>/blog\<close>, the set is \<open>/\<close> and \<open>/blog\<close>.
\<close>

theorem prerender_blog_routes:
  "prerenderRoutes flatBlogPages = [''/''] \<and>
   prerenderRoutes nestedBlogPages = [''/'', ''/blog'']"
  by (simp add: prerenderRoutes_def flatBlogPages_def nestedBlogPages_def
      OPTIONAL_PARAM_RE_test_def startsWith_def endsWith_def joinURL_def isNonEmptyURL_def
      withTrailingSlash_def stripLeadingSlash_def set_add_def isLineTerminator_def)

section \<open>Properties of the watch handlers\<close>

lemma resolve_rooted: "\<exists>rest. resolve cwd a b = CHR ''/'' # rest"
  by (simp add: resolve_def rooted_def)

lemma toLower_slash: "toLower (CHR ''/'') = CHR ''/''"
  by (simp add: toLower_def)

lemma RESTART_RE_rejects_rooted: "\<not> RESTART_RE_test (CHR ''/'' # rest)"
  by (auto simp: RESTART_RE_test_def toLower_slash)

text \<open>
  The test of \<open>RESTART_RE\<close> in the core handler is applied to the resolved path, which
  begins with a slash, so that branch is never taken: the handler restarts for a watched
  module path or a matching watch pattern, and for nothing else.
\<close>

lemma coreWatch_branches:
  "coreWatch w event relativePath =
     (if resolve (cw_cwd w) (cw_srcDir w) relativePath \<in> watchedPaths w
      then Some (Restart True)
      else if list_ex
                (patternMatches (resolve (cw_cwd w) (cw_srcDir w) relativePath)
                   (map (\<lambda>l. relative (cw_cwd w)
                              (if layer_srcDir l \<noteq> [] then layer_srcDir l else layer_cwd l)
                              (resolve (cw_cwd w) (cw_srcDir w) relativePath))
                        (layers w)))
                (watch w)
      then Some (Restart False)
      else None)"
proof -
  obtain rest where "resolve (cw_cwd w) (cw_srcDir w) relativePath = CHR ''/'' # rest"
    using resolve_rooted by blast
  then show ?thesis
    by (simp add: coreWatch_def RESTART_RE_rejects_rooted)
qed

text \<open>
  C7: adding or removing \<open>app.vue\<close> at the root of the project should restart. The
  handler does nothing: \<open>RESTART_RE\<close>, which is written for a bare file name, is tested
  against the absolute path \<open>/project/app.vue\<close>.
\<close>

theorem coreWatch_app_vue_no_restart:
  "RESTART_RE_test ''app.vue'' \<and>
   coreWatch exampleCoreWatch Add ''app.vue'' = None \<and>
   coreWatch exampleCoreWatch Unlink ''app.vue'' = None"
  by (simp add: coreWatch_branches exampleCoreWatch_def RESTART_RE_test_def toLower_def)

text \<open>
  C8, as stated: a change under the plugins directory would restart. No handler restarts
  for it, and none does anything.
\<close>

theorem watch_plugin_change_counterexample:
  "coreWatch exampleCoreWatch Change ''plugins/my-plugin.ts'' = None \<and>
   pagesTemplatesWatch examplePagesWatch Change ''plugins/my-plugin.ts'' = None \<and>
   pagesEnabledWatch examplePagesWatch Change ''plugins/my-plugin.ts'' = None"
  by (simp add: coreWatch_branches exampleCoreWatch_def pagesTemplatesWatch_def
      pagesEnabledWatch_def examplePagesWatch_def isPageOpt_def resolve_def rooted_def
      isAbsolute_def normalizeWindowsPath_def startsWith_def)

text \<open>
  C8, amended: on a change event the core handler restarts only when the resolved path is
  a watched local module (a hard restart) or matches a watch pattern of the options; for
  any other path, one under the plugins directory included, it does nothing. A change of
  a recognized page file while \<open>experimental.scanPageMeta\<close> is enabled makes the pages
  handler regenerate the templates named \<open>routes.mjs\<close> and no other, and that handler
  never restarts.
\<close>

theorem watch_change_classification:
  assumes "scanPageMeta pw"
    and "isPageOpt (resolve (pw_cwd pw) (pw_srcDir pw) pagePath) (appPages pw)"
  shows "pagesTemplatesWatch pw Change pagePath = Some (UpdateTemplates routesOnly) \<and>
         routesOnly filename = (filename = ''routes.mjs'') \<and>
         pagesTemplatesWatch pw event anyPath \<noteq> Some (Restart hard) \<and>
         coreWatch cw Change relativePath =
           (let path = resolve (cw_cwd cw) (cw_srcDir cw) relativePath in
            if path \<in> watchedPaths cw then Some (Restart True)
            else if list_ex
                      (patternMatches path
                         (map (\<lambda>l. relative (cw_cwd cw)
                                    (if layer_srcDir l \<noteq> [] then layer_srcDir l
                                     else layer_cwd l) path)
                              (layers cw)))
                      (watch cw)
            then Some (Restart False)
            else None)"
proof -
  have templates: "pagesTemplatesWatch pw Change pagePath = Some (UpdateTemplates routesOnly)"
    using assms by (simp add: pagesTemplatesWatch_def)
  have filter_name: "routesOnly filename = (filename = ''routes.mjs'')"
    by (simp add: routesOnly_def)
  have no_restart: "pagesTemplatesWatch pw event anyPath \<noteq> Some (Restart hard)"
    by (simp add: pagesTemplatesWatch_def Let_def)
  have core: "coreWatch cw Change relativePath =
           (let path = resolve (cw_cwd cw) (cw_srcDir cw) relativePath in
            if path \<in> watchedPaths cw then Some (Restart True)
            else if list_ex
                      (patternMatches path
                         (map (\<lambda>l. relative (cw_cwd cw)
                                    (if layer_srcDir l \<noteq> [] then layer_srcDir l
                                     else layer_cwd l) path)
                              (layers cw)))
                      (watch cw)
            then Some (Restart False)
            else None)"
    by (simp add: coreWatch_branches Let_def)
  from templates filter_name no_restart core show ?thesis by blast
qed

theorem watch_change_classification_witness:
  "scanPageMeta examplePagesWatch \<and>
   isPageOpt (resolve (pw_cwd examplePagesWatch) (pw_srcDir examplePagesWatch)
                ''pages/index.vue'') (appPages examplePagesWatch) \<and>
   pagesTemplatesWatch examplePagesWatch Change ''pages/index.vue'' =
     Some (UpdateTemplates routesOnly) \<and>
   routesOnly ''routes.mjs'' \<and>
   coreWatch exampleCoreWatch Change ''plugins/my-plugin.ts'' = None"
proof -
  have meta: "scanPageMeta examplePagesWatch"
    by (simp add: examplePagesWatch_def)
  have page: "isPageOpt (resolve (pw_cwd examplePagesWatch) (pw_srcDir examplePagesWatch)
                ''pages/index.vue'') (appPages examplePagesWatch)"
    by (simp add: examplePagesWatch_def isPageOpt_def resolve_def rooted_def isAbsolute_def
        normalizeWindowsPath_def startsWith_def)
  from watch_change_classification [OF meta page, of "''routes.mjs''" Change
      "''pages/index.vue''" False exampleCoreWatch "''plugins/my-plugin.ts''"]
  show ?thesis
    using meta page by (simp add: exampleCoreWatch_def)
qed

section \<open>Properties of the dependency diagnostics\<close>

declare checkDeps.simps [simp del]

lemma visited_bound:
  assumes "distinct visited" and "set visited \<subseteq> fst ` set d"
  shows "length visited \<le> length d"
proof -
  have "length visited = card (set visited)"
    using assms(1) by (simp add: distinct_card)
  also have "\<dots> \<le> card (fst ` set d)"
    using assms(2) by (simp add: card_mono)
  also have "\<dots> \<le> card (set d)"
    by (simp add: card_image_le)
  also have "\<dots> \<le> length d"
    by (rule card_length)
  finally show ?thesis .
qed

lemma checkDeps_repeated:
  "name \<in> set visited \<Longrightarrow> checkDeps d name visited = [CircularDependency (visited @ [name])]"
  by (subst checkDeps.simps) simp

lemma checkDeps_reports:
  "distinct visited \<Longrightarrow> set visited \<subseteq> fst ` set d \<Longrightarrow>
   list_all (isCycle d) (checkDeps d name visited)"
proof (induction d name visited rule: checkDeps.induct)
  case (1 d name visited)
  show ?case
  proof (cases "name \<in> set visited")
    case True
    with "1.prems" visited_bound [of visited d] show ?thesis
      by (simp add: checkDeps_repeated isCycle_def)
  next
    case False
    show ?thesis
    proof (cases "map_of d name")
      case None
      with False show ?thesis by (subst checkDeps.simps) simp
    next
      case (Some ds)
      then have key: "name \<in> fst ` set d"
        by (force dest: map_of_SomeD)
      have step: "list_all (isCycle d) (checkDeps d dep (visited @ [name]))"
        if "dep \<in> set ds" for dep
      proof (cases "ds = []")
        case True
        with that show ?thesis by simp
      next
        case nonempty: False
        show ?thesis
          using "1.IH" [OF False Some nonempty that] "1.prems" False key by simp
      qed
      then show ?thesis
        using False Some by (subst checkDeps.simps) (auto simp: list_all_iff)
    qed
  qed
qed

lemma missing_reports:
  "list_all isMissing
     (concat (map (\<lambda>plugin.
                if missingOf names plugin \<noteq> []
                then [MissingDependencies (p_name plugin) (missingOf names plugin)]
                else []) plugins))"
  by (induction plugins) (simp_all add: isMissing_def)

lemma cycle_reports:
  "list_all (isCycle d) (concat (map (\<lambda>name. checkDeps d name []) names))"
  by (induction names) (simp_all add: checkDeps_reports)

lemma continues_repeated:
  assumes "name \<in> set visited" and "distinct visited"
  shows "continues d visited name q = (q = [name])"
proof
  assume c: "continues d visited name q"
  then obtain rest where q: "q = name # rest"
    by (cases q) (auto simp: continues_def)
  have "rest = []"
  proof (rule ccontr)
    assume "rest \<noteq> []"
    then have "name \<in> set (butlast q)"
      by (simp add: q)
    with c assms show False
      by (auto simp: continues_def)
  qed
  with q show "q = [name]" by simp
next
  assume "q = [name]"
  with assms show "continues d visited name q"
    by (simp add: continues_def)
qed

lemma continues_fresh:
  assumes "name \<notin> set visited"
  shows "continues d visited name q =
           (\<exists>dep q'. q = name # q' \<and> edge d name dep \<and> continues d (visited @ [name]) dep q')"
proof
  assume c: "continues d visited name q"
  then obtain rest where q: "q = name # rest"
    by (cases q) (auto simp: continues_def)
  have "rest \<noteq> []"
  proof
    assume "rest = []"
    with c q assms show False by (simp add: continues_def)
  qed
  then obtain dep tail where rest: "rest = dep # tail"
    by (cases rest) auto
  have "continues d (visited @ [name]) dep rest"
    using c by (auto simp: continues_def q rest)
  moreover have "edge d name dep"
    using c by (simp add: continues_def q rest)
  ultimately show "\<exists>dep q'. q = name # q' \<and> edge d name dep \<and>
                     continues d (visited @ [name]) dep q'"
    using q by blast
next
  assume "\<exists>dep q'. q = name # q' \<and> edge d name dep \<and> continues d (visited @ [name]) dep q'"
  then obtain dep q' where q: "q = name # q'" and e: "edge d name dep"
      and c: "continues d (visited @ [name]) dep q'"
    by blast
  from c obtain tail where q': "q' = dep # tail"
    by (cases q') (auto simp: continues_def)
  show "continues d visited name q"
    using c e assms by (auto simp: continues_def q q')
qed

lemma checkDeps_reports_iff:
  "distinct visited \<Longrightarrow>
   CircularDependency p \<in> set (checkDeps d name visited) \<longleftrightarrow>
     (\<exists>q. p = visited @ q \<and> continues d visited name q)"
proof (induction d name visited arbitrary: p rule: checkDeps.induct)
  case (1 d name visited)
  show ?case
  proof (cases "name \<in> set visited")
    case True
    with "1.prems" show ?thesis
      by (subst checkDeps.simps) (auto simp: continues_repeated)
  next
    case False
    show ?thesis
    proof (cases "map_of d name")
      case None
      then have "\<not> edge d name dep" for dep
        by (simp add: edge_def)
      with False None show ?thesis
        by (subst checkDeps.simps) (simp add: continues_fresh)
    next
      case (Some ds)
      show ?thesis
      proof (cases "ds = []")
        case True
        with Some have "\<not> edge d name dep" for dep
          by (simp add: edge_def)
        with False Some True show ?thesis
          by (subst checkDeps.simps) (simp add: continues_fresh)
      next
        case nonempty: False
        have edges: "edge d name dep = (dep \<in> set ds)" for dep
          using Some by (simp add: edge_def)
        have "CircularDependency p \<in> set (checkDeps d name visited) \<longleftrightarrow>
              (\<exists>dep \<in> set ds. CircularDependency p \<in> set (checkDeps d dep (visited @ [name])))"
          using False Some nonempty by (subst checkDeps.simps) auto
        also have "\<dots> \<longleftrightarrow>
              (\<exists>dep \<in> set ds. \<exists>q'. p = (visited @ [name]) @ q' \<and>
                 continues d (visited @ [name]) dep q')"
          using "1.IH" [OF False Some nonempty] "1.prems" False by simp
        also have "\<dots> \<longleftrightarrow> (\<exists>q. p = visited @ q \<and> continues d visited name q)"
          by (auto simp: continues_fresh [OF False] edges)
        finally show ?thesis .
      qed
    qed
  qed
qed

lemma checkDeps_from_start:
  "CircularDependency path \<in> set (checkDeps d start []) \<longleftrightarrow> reportedCycle d start path"
  by (simp add: checkDeps_reports_iff continues_def reportedCycle_def)

lemma checkDeps_only_cycles: "MissingDependencies n ms \<notin> set (checkDeps d start [])"
  using checkDeps_reports [of "[]" d start] by (auto simp: list_all_iff isCycle_def)

lemma missing_only_missing:
  "CircularDependency path \<notin> set (concat (map (\<lambda>plugin.
       if missingOf names plugin \<noteq> []
       then [MissingDependencies (p_name plugin) (missingOf names plugin)]
       else []) plugins))"
  using missing_reports [of names plugins] by (auto simp: list_all_iff isMissing_def)

lemma missing_reports_iff:
  "MissingDependencies n ms \<in> set (concat (map (\<lambda>plugin.
       if missingOf names plugin \<noteq> []
       then [MissingDependencies (p_name plugin) (missingOf names plugin)]
       else []) plugins)) \<longleftrightarrow>
   list_ex (\<lambda>plugin. p_name plugin = n \<and> missingOf names plugin = ms \<and> ms \<noteq> []) plugins"
  by (induction plugins) auto

lemma forInKeys_set: "set (forInKeys d) = set (map fst d)"
  by (auto simp: forInKeys_def)

text \<open>
  C3: \<open>checkDeps\<close> is defined on every graph, cyclic or not (its recursion is well-founded:
  the set of graph entries not yet on the path shrinks at each call). On a name that is
  already on the path it writes one cycle message, the path followed by that name, and
  goes no further. The cycle messages of a traversal from a start are exactly the paths
  that begin at the start, follow dependency edges and repeat no name but their last one,
  which is on the path already. \<open>checkForCircularDependencies\<close> writes these for every
  plugin name of the graph as a start, after one message for each plugin with
  unregistered dependencies; each cycle report is no longer than the graph plus one, and
  messages are all it produces.
\<close>

theorem checkForCircularDependencies_reports_cycles:
  "checkDeps d name (before @ name # after) =
     [CircularDependency (before @ name # after @ [name])] \<and>
   list_all (isCycle d) (checkDeps d start []) \<and>
   (CircularDependency path \<in> set (checkDeps d start [])) = reportedCycle d start path \<and>
   (CircularDependency path \<in> set (checkForCircularDependencies plugins)) =
     list_ex (\<lambda>start. reportedCycle (buildDeps plugins) start path)
       (map fst (buildDeps plugins)) \<and>
   (MissingDependencies pluginName unregistered \<in> set (checkForCircularDependencies plugins)) =
     list_ex (\<lambda>plugin. p_name plugin = pluginName \<and>
                missingOf (map p_name plugins) plugin = unregistered \<and> unregistered \<noteq> [])
       plugins \<and>
   (\<exists>missing cycles.
      checkForCircularDependencies plugins = missing @ cycles \<and>
      list_all isMissing missing \<and>
      list_all (isCycle (buildDeps plugins)) cycles)"
proof -
  have stops: "checkDeps d name (before @ name # after) =
     [CircularDependency ((before @ name # after) @ [name])]"
    by (rule checkDeps_repeated) simp
  have bounded: "list_all (isCycle d) (checkDeps d start [])"
    by (simp add: checkDeps_reports)
  have from_start:
    "(CircularDependency path \<in> set (checkDeps d start [])) = reportedCycle d start path"
    by (rule checkDeps_from_start)
  have "(CircularDependency path \<in> set (checkForCircularDependencies plugins)) =
     (\<exists>start \<in> set (forInKeys (buildDeps plugins)).
        CircularDependency path \<in> set (checkDeps (buildDeps plugins) start []))"
    using missing_only_missing [of path "map p_name plugins" plugins]
    by (simp add: checkForCircularDependencies_def Let_def)
  then have cycles: "(CircularDependency path \<in> set (checkForCircularDependencies plugins)) =
     list_ex (\<lambda>start. reportedCycle (buildDeps plugins) start path)
       (map fst (buildDeps plugins))"
    by (simp add: checkDeps_from_start forInKeys_set list_ex_iff)
  have unregistered:
    "(MissingDependencies pluginName unregistered \<in>
        set (checkForCircularDependencies plugins)) =
     list_ex (\<lambda>plugin. p_name plugin = pluginName \<and>
                missingOf (map p_name plugins) plugin = unregistered \<and> unregistered \<noteq> [])
       plugins"
    using missing_reports_iff [of pluginName unregistered "map p_name plugins" plugins]
    by (simp add: checkForCircularDependencies_def Let_def checkDeps_only_cycles)
  have parts: "\<exists>missing cycles.
      checkForCircularDependencies plugins = missing @ cycles \<and>
      list_all isMissing missing \<and>
      list_all (isCycle (buildDeps plugins)) cycles"
    unfolding checkForCircularDependencies_def Let_def
    using missing_reports cycle_reports by blast
  from stops bounded from_start cycles unregistered parts show ?thesis
    by simp
qed

section \<open>Properties of the plugin order\<close>

lemma insort_key_map_commute:
  "(\<And>x. key (f x) = key x) \<Longrightarrow>
   map f (insort_key key x xs) = insort_key key (f x) (map f xs)"
  by (induction xs) auto

lemma sort_key_map_commute:
  assumes "\<And>x. key (f x) = key x"
  shows "map f (sort_key key xs) = sort_key key (map f xs)"
  using assms by (induction xs) (simp_all add: insort_key_map_commute)

lemma insort_key_map:
  "insort_key key (g x) (map g xs) = map g (insort_key (\<lambda>i. key (g i)) x xs)"
  by (induction xs) auto

lemma sort_key_map:
  "sort_key key (map g xs) = map g (sort_key (\<lambda>i. key (g i)) xs)"
  by (induction xs) (simp_all add: insort_key_map)

lemma insort_key_cong_set:
  "(\<And>y. y \<in> set (x # xs) \<Longrightarrow> f y = g y) \<Longrightarrow> insort_key f x xs = insort_key g x xs"
  by (induction xs) auto

lemma sort_key_cong_set:
  "(\<And>y. y \<in> set xs \<Longrightarrow> f y = g y) \<Longrightarrow> sort_key f xs = sort_key g xs"
proof (induction xs)
  case Nil
  then show ?case by simp
next
  case (Cons x xs)
  have "sort_key f xs = sort_key g xs"
    using Cons by simp
  moreover have "insort_key f x (sort_key g xs) = insort_key g x (sort_key g xs)"
    using Cons.prems by (intro insort_key_cong_set) auto
  ultimately show ?case by simp
qed

text \<open>
  The stable sort applies to the list a rearrangement of its positions that is computed
  from the list of keys alone.
\<close>

lemma sort_key_by_positions:
  "sort_key key xs = map (\<lambda>i. xs ! i) (sort_key (\<lambda>i. map key xs ! i) [0..<length xs])"
proof -
  have "sort_key key xs = sort_key key (map (\<lambda>i. xs ! i) [0..<length xs])"
    by (simp add: map_nth)
  also have "\<dots> = map (\<lambda>i. xs ! i) (sort_key (\<lambda>i. key (xs ! i)) [0..<length xs])"
    by (rule sort_key_map)
  also have "sort_key (\<lambda>i. key (xs ! i)) [0..<length xs] =
             sort_key (\<lambda>i. map key xs ! i) [0..<length xs]"
    by (rule sort_key_cong_set) simp
  finally show ?thesis .
qed

declare findSlot.simps [simp del]

text \<open>The array sort returns a rearrangement of its argument, whatever the comparison.\<close>

lemma mset_binaryInsertionSort:
  "mset (binaryInsertionSort precedes run pending) = mset run + mset pending"
proof (induction pending arbitrary: run)
  case Nil
  then show ?case by simp
next
  case (Cons pivot rest)
  have "mset (take n run @ pivot # drop n run) = mset run + {#pivot#}" for n
    by (metis add_mset_add_single append_take_drop_id mset.simps(2) mset_append union_mset_add_mset_right)
  then show ?case
    by (simp add: Cons.IH Let_def)
qed

lemma countAndMakeRun_parts:
  "countAndMakeRun precedes xs = (ws, n) \<Longrightarrow> mset ws = mset xs"
  by (auto simp: countAndMakeRun_def Let_def split: list.splits if_splits)
     (metis append_take_drop_id mset_append mset_rev)+

lemma mset_arraySort: "mset (arraySort comparefn xs) = mset xs"
proof (cases "length xs < 2")
  case True
  then show ?thesis by (simp add: arraySort_def)
next
  case False
  obtain ws n where run: "countAndMakeRun (\<lambda>x y. isNegative (comparefn x y)) xs = (ws, n)"
    by (cases "countAndMakeRun (\<lambda>x y. isNegative (comparefn x y)) xs")
  have "mset (take n ws) + mset (drop n ws) = mset ws"
    by (metis append_take_drop_id mset_append)
  with run False countAndMakeRun_parts [OF run] show ?thesis
    by (simp add: arraySort_def mset_binaryInsertionSort)
qed


text \<open>
  When the comparison agrees with a linear order of keys, the array sort is the stable
  sort by that key.
\<close>

lemma findSlot_spec:
  fixes k :: "'a \<Rightarrow> 'k::linorder"
  assumes "sorted (map k run)"
    and "\<forall>y \<in> set run. precedes pivot y = (k pivot < k y)"
    and "left \<le> right" and "right \<le> length run"
    and "\<forall>i < left. k (run ! i) \<le> k pivot"
    and "\<forall>i. right \<le> i \<and> i < length run \<longrightarrow> k pivot < k (run ! i)"
  shows "findSlot precedes pivot run left right \<le> length run \<and>
         (\<forall>i < findSlot precedes pivot run left right. k (run ! i) \<le> k pivot) \<and>
         (\<forall>i. findSlot precedes pivot run left right \<le> i \<and> i < length run \<longrightarrow>
              k pivot < k (run ! i))"
  using assms
proof (induction precedes pivot run left right rule: findSlot.induct)
  case (1 precedes pivot ws left right)
  show ?case
  proof (cases "left < right")
    case False
    with "1.prems" have "left = right" by simp
    with False "1.prems" show ?thesis
      by (subst (1 2 3) findSlot.simps) simp
  next
    case True
    define mid where "mid = left + (right - left) div 2"
    have mid: "left \<le> mid" "mid < right" "mid < length ws"
      using True "1.prems"(4) by (auto simp: mid_def)
    then have member: "ws ! mid \<in> set ws"
      by simp
    have mono: "k (ws ! i) \<le> k (ws ! j)" if "i \<le> j" "j < length ws" for i j
      using "1.prems"(1) that by (auto simp: sorted_iff_nth_mono dest: spec [of _ i])
    show ?thesis
    proof (cases "precedes pivot (ws ! mid)")
      case before: True
      with "1.prems"(2) member have small: "k pivot < k (ws ! mid)"
        by blast
      have upper: "\<forall>i. mid \<le> i \<and> i < length ws \<longrightarrow> k pivot < k (ws ! i)"
        using small mono by (meson less_le_trans)
      have "findSlot precedes pivot ws left mid \<le> length ws \<and>
         (\<forall>i < findSlot precedes pivot ws left mid. k (ws ! i) \<le> k pivot) \<and>
         (\<forall>i. findSlot precedes pivot ws left mid \<le> i \<and> i < length ws \<longrightarrow>
              k pivot < k (ws ! i))"
        using "1.IH"(1) [OF True mid_def before "1.prems"(1,2)]
          mid "1.prems"(5) upper
        by (simp add: mid_def)
      moreover have "findSlot precedes pivot ws left right = findSlot precedes pivot ws left mid"
        using True before by (subst findSlot.simps) (simp add: mid_def Let_def)
      ultimately show ?thesis by simp
    next
      case after: False
      with "1.prems"(2) member have large: "k (ws ! mid) \<le> k pivot"
        by auto
      have lower: "\<forall>i < mid + 1. k (ws ! i) \<le> k pivot"
        using large mono mid by (metis Suc_eq_plus1 less_Suc_eq_le order_trans)
      have "findSlot precedes pivot ws (mid + 1) right \<le> length ws \<and>
         (\<forall>i < findSlot precedes pivot ws (mid + 1) right. k (ws ! i) \<le> k pivot) \<and>
         (\<forall>i. findSlot precedes pivot ws (mid + 1) right \<le> i \<and> i < length ws \<longrightarrow>
              k pivot < k (ws ! i))"
        using "1.IH"(2) [OF True mid_def after "1.prems"(1,2)]
          mid "1.prems"(4,6) lower
        by (simp add: mid_def)
      moreover have "findSlot precedes pivot ws left right = findSlot precedes pivot ws (mid + 1) right"
        using True after by (subst findSlot.simps) (simp add: mid_def Let_def)
      ultimately show ?thesis by simp
    qed
  qed
qed

lemma insert_at_slot:
  fixes k :: "'a \<Rightarrow> 'k::linorder"
  assumes run: "run = sort_key k orig"
    and slot: "r \<le> length run"
    and lower: "\<forall>i < r. k (run ! i) \<le> k pivot"
    and upper: "\<forall>i. r \<le> i \<and> i < length run \<longrightarrow> k pivot < k (run ! i)"
  shows "take r run @ pivot # drop r run = sort_key k (orig @ [pivot])"
proof -
  have sorted_run: "sorted (map k run)"
    by (simp add: run)
  have low: "k x \<le> k pivot" if "x \<in> set (take r run)" for x
    using that lower slot by (auto simp: in_set_conv_nth)
  have high: "k pivot < k x" if "x \<in> set (drop r run)" for x
  proof -
    from that obtain i where "i < length run - r" "x = run ! (r + i)"
      by (auto simp: in_set_conv_nth)
    with upper show ?thesis by simp
  qed
  have parts: "run = take r run @ drop r run"
    by simp
  have sorted_parts: "sorted (map k (take r run))" "sorted (map k (drop r run))"
    using sorted_run by (simp_all add: sorted_map)
  have sorted_result: "sorted (map k (take r run @ pivot # drop r run))"
    using sorted_parts low high
    by (auto simp: sorted_append dest: less_imp_le order_trans)
  have counted: "mset (take r run @ pivot # drop r run) = mset (orig @ [pivot])"
  proof -
    have "mset (take r run) + mset (drop r run) = mset run"
      by (metis append_take_drop_id mset_append)
    then show ?thesis by (simp add: run)
  qed
  have stable: "filter (\<lambda>x. k c = k x) (take r run @ pivot # drop r run) =
                filter (\<lambda>x. k c = k x) (orig @ [pivot])" for c
  proof -
    have "filter (\<lambda>x. k x = k c) orig = filter (\<lambda>x. k x = k c) run"
      by (simp add: run sort_key_stable)
    also have "\<dots> = filter (\<lambda>x. k x = k c) (take r run) @ filter (\<lambda>x. k x = k c) (drop r run)"
      by (metis append_take_drop_id filter_append)
    finally have split: "filter (\<lambda>x. k c = k x) orig =
        filter (\<lambda>x. k c = k x) (take r run) @ filter (\<lambda>x. k c = k x) (drop r run)"
      by (simp add: eq_commute [of "k c"])
    show ?thesis
    proof (cases "k c = k pivot")
      case True
      have "\<forall>x \<in> set (drop r run). k c \<noteq> k x"
        using high True by (metis less_irrefl)
      then have "filter (\<lambda>x. k c = k x) (drop r run) = []"
        by (simp add: filter_empty_conv)
      with True split show ?thesis by simp
    next
      case False
      with split show ?thesis by simp
    qed
  qed
  show ?thesis
    by (rule properties_for_sort_key [symmetric]) (simp_all only: counted stable sorted_result)
qed

lemma binaryInsertionSort_sort_key:
  fixes k :: "'a \<Rightarrow> 'k::linorder"
  assumes "\<forall>x \<in> set (orig @ pending). \<forall>y \<in> set (orig @ pending). precedes x y = (k x < k y)"
  shows "binaryInsertionSort precedes (sort_key k orig) pending = sort_key k (orig @ pending)"
  using assms
proof (induction pending arbitrary: orig)
  case Nil
  then show ?case by simp
next
  case (Cons pivot rest)
  let ?run = "sort_key k orig"
  let ?r = "findSlot precedes pivot ?run 0 (length ?run)"
  have agree: "\<forall>y \<in> set ?run. precedes pivot y = (k pivot < k y)"
    using Cons.prems by simp
  have "?r \<le> length ?run \<and> (\<forall>i < ?r. k (?run ! i) \<le> k pivot) \<and>
        (\<forall>i. ?r \<le> i \<and> i < length ?run \<longrightarrow> k pivot < k (?run ! i))"
    by (rule findSlot_spec) (use agree in auto)
  then have inserted: "take ?r ?run @ pivot # drop ?r ?run = sort_key k (orig @ [pivot])"
    by (intro insert_at_slot) simp_all
  have "\<forall>x \<in> set ((orig @ [pivot]) @ rest). \<forall>y \<in> set ((orig @ [pivot]) @ rest).
          precedes x y = (k x < k y)"
    using Cons.prems by simp
  from Cons.IH [OF this] show ?case
    using inserted by (simp add: Let_def)
qed

lemma runLength_le: "runLength precedes isDescending previous rest \<le> length rest"
  by (induction rest arbitrary: previous) simp_all

lemma runLength_ascending:
  fixes k :: "'a \<Rightarrow> 'k::linorder"
  assumes "\<forall>x \<in> set (previous # rest). \<forall>y \<in> set (previous # rest). precedes x y = (k x < k y)"
  shows "sorted (map k (previous # take (runLength precedes False previous rest) rest))"
  using assms
proof (induction rest arbitrary: previous)
  case Nil
  then show ?case by simp
next
  case (Cons current rest)
  show ?case
  proof (cases "precedes current previous")
    case True
    then show ?thesis by simp
  next
    case False
    with Cons.prems have "k previous \<le> k current"
      by auto
    moreover have "sorted (map k (current # take (runLength precedes False current rest) rest))"
      by (rule Cons.IH) (use Cons.prems in simp)
    ultimately show ?thesis
      using False by (auto intro: order_trans)
  qed
qed

lemma runLength_descending:
  fixes k :: "'a \<Rightarrow> 'k::linorder"
  assumes "\<forall>x \<in> set (previous # rest). \<forall>y \<in> set (previous # rest). precedes x y = (k x < k y)"
  shows "sorted_wrt (\<lambda>a b. k b < k a) (previous # take (runLength precedes True previous rest) rest)"
  using assms
proof (induction rest arbitrary: previous)
  case Nil
  then show ?case by simp
next
  case (Cons current rest)
  show ?case
  proof (cases "precedes current previous")
    case False
    then show ?thesis by simp
  next
    case True
    with Cons.prems have step: "k current < k previous"
      by auto
    have "sorted_wrt (\<lambda>a b. k b < k a) (current # take (runLength precedes True current rest) rest)"
      by (rule Cons.IH) (use Cons.prems in simp)
    with step True show ?thesis
      by (auto dest: less_trans)
  qed
qed

lemma insort_key_last:
  fixes k :: "'a \<Rightarrow> 'k::linorder"
  shows "\<forall>y \<in> set ys. k y < k z \<Longrightarrow> insort_key k z ys = ys @ [z]"
  by (induction ys) auto

lemma sort_key_descending:
  fixes k :: "'a \<Rightarrow> 'k::linorder"
  shows "sorted_wrt (\<lambda>a b. k b < k a) zs \<Longrightarrow> sort_key k zs = rev zs"
  by (induction zs) (simp_all add: insort_key_last)

lemma countAndMakeRun_sort_key:
  fixes k :: "'a \<Rightarrow> 'k::linorder"
  assumes agree: "\<forall>x \<in> set xs. \<forall>y \<in> set xs. precedes x y = (k x < k y)"
    and run: "countAndMakeRun precedes xs = (ws, n)"
  shows "take n ws = sort_key k (take n xs) \<and> drop n ws = drop n xs"
proof (cases xs)
  case Nil
  with run show ?thesis by (simp add: countAndMakeRun_def)
next
  case (Cons high tail)
  show ?thesis
  proof (cases tail)
    case Nil
    with Cons run show ?thesis by (auto simp: countAndMakeRun_def)
  next
    case (Cons low rest)
    note xs = \<open>xs = high # tail\<close> Cons
    let ?m = "runLength precedes (precedes low high) low rest"
    have n: "n = 2 + ?m"
      using run xs by (auto simp: countAndMakeRun_def Let_def split: if_splits)
    have bound: "n \<le> length xs"
      using runLength_le [of precedes "precedes low high" low rest] by (simp add: n xs)
    have taken: "take n xs = high # low # take ?m rest"
      by (simp add: n xs)
    have inner: "\<forall>x \<in> set (low # rest). \<forall>y \<in> set (low # rest). precedes x y = (k x < k y)"
      using agree xs by simp
    show ?thesis
    proof (cases "precedes low high")
      case True
      then have ws: "ws = rev (take n xs) @ drop n xs"
        using run xs by (auto simp: countAndMakeRun_def Let_def)
      from True agree xs have "k low < k high" by simp
      moreover have "sorted_wrt (\<lambda>a b. k b < k a) (low # take (runLength precedes True low rest) rest)"
        by (rule runLength_descending [OF inner])
      ultimately have "sorted_wrt (\<lambda>a b. k b < k a) (take n xs)"
        using True by (auto simp: taken dest: less_trans)
      then have "sort_key k (take n xs) = rev (take n xs)"
        by (rule sort_key_descending)
      moreover have "length (rev (take n xs)) = n"
        using bound by simp
      ultimately show ?thesis
        by (simp add: ws del: length_rev length_take)
    next
      case False
      then have ws: "ws = xs"
        using run xs by (auto simp: countAndMakeRun_def Let_def)
      from False agree xs have "k high \<le> k low" by auto
      moreover have "sorted (map k (low # take (runLength precedes False low rest) rest))"
        by (rule runLength_ascending [OF inner])
      ultimately have "sorted (map k (take n xs))"
        using False by (auto simp: taken intro: order_trans)
      then show ?thesis
        by (simp add: ws sort_key_id_if_sorted)
    qed
  qed
qed

lemma arraySort_sort_key:
  fixes k :: "'a \<Rightarrow> 'k::linorder"
  assumes "\<forall>x \<in> set xs. \<forall>y \<in> set xs. isNegative (comparefn x y) = (k x < k y)"
  shows "arraySort comparefn xs = sort_key k xs"
proof (cases "length xs < 2")
  case True
  then have "xs = [] \<or> (\<exists>x. xs = [x])"
    by (cases xs) (auto simp: length_Suc_conv)
  with True show ?thesis
    by (auto simp: arraySort_def)
next
  case False
  let ?precedes = "\<lambda>x y. isNegative (comparefn x y)"
  obtain ws n where run: "countAndMakeRun ?precedes xs = (ws, n)"
    by (cases "countAndMakeRun ?precedes xs")
  have parts: "take n ws = sort_key k (take n xs) \<and> drop n ws = drop n xs"
    by (rule countAndMakeRun_sort_key [OF _ run]) (use assms in simp)
  have "binaryInsertionSort ?precedes (sort_key k (take n xs)) (drop n xs) =
        sort_key k (take n xs @ drop n xs)"
    by (rule binaryInsertionSort_sort_key) (use assms in simp)
  with False run parts show ?thesis
    by (simp add: arraySort_def)
qed

lemma isNegative_rank:
  "a \<noteq> NaN \<Longrightarrow> b \<noteq> NaN \<Longrightarrow> isNegative (numSub a b) = (rank a < rank b)"
  by (cases a; cases b) (simp_all add: isNegative_def numSub_def rank_def)

lemma numLe_rank:
  "a \<noteq> NaN \<Longrightarrow> b \<noteq> NaN \<Longrightarrow> numLe a b = (rank a \<le> rank b)"
  by (cases a; cases b) (simp_all add: numLe_def rank_def)

lemma nan_never_sorted:
  assumes "NaN \<in> set ks" and "2 \<le> length ks"
  shows "\<not> sorted_wrt numLe ks"
proof
  assume sorted: "sorted_wrt numLe ks"
  from assms(1) obtain i where i: "i < length ks" "ks ! i = NaN"
    by (auto simp: in_set_conv_nth)
  obtain j where j: "j < length ks" "j \<noteq> i"
  proof (cases "i = 0")
    case True
    with assms(2) have "1 < length ks" "1 \<noteq> i" by simp_all
    then show ?thesis by (rule that)
  next
    case False
    with assms(2) have "0 < length ks" "0 \<noteq> i" by auto
    then show ?thesis by (rule that)
  qed
  then consider "i < j" | "j < i" by linarith
  then show False
  proof cases
    case 1
    with sorted j i have "numLe NaN (ks ! j)"
      using sorted_wrt_nth_less [of numLe ks i j] by simp
    then show False by (simp add: numLe_def)
  next
    case 2
    with sorted j i have "numLe (ks ! j) NaN"
      using sorted_wrt_nth_less [of numLe ks j i] by simp
    then show False by (cases "ks ! j") (simp_all add: numLe_def)
  qed
qed

lemma rank_eq_iff: "rank a = rank b \<longleftrightarrow> a = b"
  by (cases a; cases b) (simp_all add: rank_def)

lemma orderKey_eraseDeps: "orderKey dflt (eraseDeps plugin) = orderKey dflt plugin"
  by (simp add: orderKey_def eraseDeps_def)

text \<open>
  Rewriting the dependency declarations, in the metadata by \<open>g\<close> and in the plugin by
  \<open>h\<close>, changes nothing of an annotated plugin but its dependency declaration.
\<close>

lemma annotateOne_eraseDeps:
  "eraseDeps (fst (annotateOne
      (env\<lparr>extractMetadata :=
              \<lambda>code. map_sum id (m_dependsOn_update g) (extractMetadata env code)\<rparr>)
      (p_dependsOn_update h plugin))) =
   eraseDeps (fst (annotateOne env plugin))"
  by (cases "extractMetadata env (the (an_vfs env (p_src plugin)))";
      cases "readFile env (p_src plugin)";
      cases "extractMetadata env (projr (readFile env (p_src plugin)))")
     (auto simp: annotateOne_def eraseDeps_def mergeMeta_def
           split: option.splits sum.splits)

lemma annotated_eraseDeps:
  "map eraseDeps (annotated
      (env\<lparr>extractMetadata :=
              \<lambda>code. map_sum id (m_dependsOn_update g) (extractMetadata env code)\<rparr>)
      (map (p_dependsOn_update h) plugins)) =
   map eraseDeps (annotated env plugins)"
  by (simp add: annotated_def annotateOne_eraseDeps)

text \<open>Without a \<open>NaN\<close> key the output is the stable sort by the rank of the key.\<close>

lemma annotatePlugins_stable_sort:
  assumes "list_all (\<lambda>p. orderKey (orderMap_default env) p \<noteq> NaN) (annotated env plugins)"
  shows "fst (annotatePlugins env plugins) =
         sort_key (\<lambda>p. rank (orderKey (orderMap_default env) p)) (annotated env plugins)"
proof -
  have "\<forall>x \<in> set (annotated env plugins). \<forall>y \<in> set (annotated env plugins).
          isNegative (compareOrder (orderMap_default env) x y) =
          (rank (orderKey (orderMap_default env) x) < rank (orderKey (orderMap_default env) y))"
    using assms by (auto simp: list_all_iff compareOrder_def isNegative_rank)
  then show ?thesis
    by (simp add: annotatePlugins_def arraySort_sort_key)
qed

text \<open>
  C2, as stated: for every plugin list the output would be sorted by order key. The order
  of a plugin is a number, and with the orders 5, \<open>NaN\<close> and -5 the comparison function
  returns \<open>NaN\<close> for both neighbouring pairs: the list is returned as it is, 5 before -5.
  (No arrangement of these three keys is sorted, whatever the engine does: lemma
  \<open>nan_never_sorted\<close>.)
\<close>

theorem annotatePlugins_nan_counterexample:
  "map (orderKey (orderMap_default exampleAnnotateEnv))
     (fst (annotatePlugins exampleAnnotateEnv nanPlugins)) =
     [Finite 5, NaN, Finite (- 5)] \<and>
   \<not> sorted_wrt numLe
       (map (orderKey (orderMap_default exampleAnnotateEnv))
          (fst (annotatePlugins exampleAnnotateEnv nanPlugins)))"
proof -
  have out: "map (orderKey (orderMap_default exampleAnnotateEnv))
     (fst (annotatePlugins exampleAnnotateEnv nanPlugins)) =
     [Finite 5, NaN, Finite (- 5)]"
    by (simp add: annotatePlugins_def annotated_def annotateOne_def mergeMeta_def
        override_def exampleAnnotateEnv_def nanPlugins_def plainPlugin_def arraySort_def
        countAndMakeRun_def compareOrder_def orderKey_def numSub_def isNegative_def)
  show ?thesis
    unfolding out by (simp add: numLe_def)
qed

text \<open>
  C2, amended: for every plugin list in which no order key is \<open>NaN\<close>, where a plugin
  without \<open>order\<close> has the key \<open>orderMap.default\<close>, the plugins returned by
  \<open>annotatePlugins\<close> are in ascending order of their order key; they are the annotated
  plugins, those with equal keys in their original order; the rearrangement is computed
  from the keys alone; and rewriting the dependency declarations of the plugins and of
  their metadata in any way leaves the result as it is, up to those declarations.
\<close>

theorem annotatePlugins_sorted_without_nan:
  assumes "list_all (\<lambda>p. orderKey (orderMap_default env) p \<noteq> NaN) (annotated env plugins)"
  shows
  "sorted_wrt numLe
     (map (orderKey (orderMap_default env)) (fst (annotatePlugins env plugins))) \<and>
   orderKey dflt (plugin\<lparr>p_order := None\<rparr>) = dflt \<and>
   orderKey dflt (plugin\<lparr>p_order := Some n\<rparr>) = n \<and>
   mset (fst (annotatePlugins env plugins)) = mset (annotated env plugins) \<and>
   filter (\<lambda>p. orderKey (orderMap_default env) p = k) (fst (annotatePlugins env plugins)) =
     filter (\<lambda>p. orderKey (orderMap_default env) p = k) (annotated env plugins) \<and>
   fst (annotatePlugins env plugins) =
     map (\<lambda>i. annotated env plugins ! i)
       (sort_key (\<lambda>i. rank (map (orderKey (orderMap_default env)) (annotated env plugins) ! i))
          [0..<length plugins]) \<and>
   map eraseDeps (fst (annotatePlugins
      (env\<lparr>extractMetadata :=
              \<lambda>code. map_sum id (m_dependsOn_update g) (extractMetadata env code)\<rparr>)
      (map (p_dependsOn_update h) plugins))) =
     map eraseDeps (fst (annotatePlugins env plugins))"
proof -
  let ?key = "orderKey (orderMap_default env)"
  let ?rank = "\<lambda>p. rank (?key p)"
  let ?env' = "env\<lparr>extractMetadata :=
              \<lambda>code. map_sum id (m_dependsOn_update g) (extractMetadata env code)\<rparr>"
  let ?plugins' = "map (p_dependsOn_update h) plugins"
  have out: "fst (annotatePlugins env plugins) = sort_key ?rank (annotated env plugins)"
    by (rule annotatePlugins_stable_sort [OF assms])
  have no_nan: "?key p \<noteq> NaN" if "p \<in> set (fst (annotatePlugins env plugins))" for p
    using that assms by (simp add: out list_all_iff)
  have "sorted (map ?rank (fst (annotatePlugins env plugins)))"
    by (simp add: out)
  then have "sorted_wrt (\<lambda>x y. ?rank x \<le> ?rank y) (fst (annotatePlugins env plugins))"
    by (simp add: sorted_map)
  then have "sorted_wrt (\<lambda>x y. numLe (?key x) (?key y)) (fst (annotatePlugins env plugins))"
    by (rule sorted_wrt_mono_rel [rotated]) (simp add: numLe_rank no_nan)
  then have sorted_out:
    "sorted_wrt numLe (map ?key (fst (annotatePlugins env plugins)))"
    by (simp add: sorted_wrt_map)
  have default_key: "orderKey dflt (plugin\<lparr>p_order := None\<rparr>) = dflt"
    by (simp add: orderKey_def)
  have explicit_key: "orderKey dflt (plugin\<lparr>p_order := Some n\<rparr>) = n"
    by (simp add: orderKey_def)
  have same_plugins: "mset (fst (annotatePlugins env plugins)) = mset (annotated env plugins)"
    by (simp add: out)
  have "filter (\<lambda>p. ?rank p = rank k) (fst (annotatePlugins env plugins)) =
        filter (\<lambda>p. ?rank p = rank k) (annotated env plugins)"
    by (simp add: out sort_key_stable)
  then have stable: "filter (\<lambda>p. ?key p = k) (fst (annotatePlugins env plugins)) =
     filter (\<lambda>p. ?key p = k) (annotated env plugins)"
    by (simp add: rank_eq_iff)
  have size: "length (annotated env plugins) = length plugins"
    by (simp add: annotated_def)
  have "sort_key (\<lambda>i. map ?rank (annotated env plugins) ! i) [0..<length plugins] =
        sort_key (\<lambda>i. rank (map ?key (annotated env plugins) ! i)) [0..<length plugins]"
    by (rule sort_key_cong_set) (simp add: size)
  then have by_keys: "fst (annotatePlugins env plugins) =
     map (\<lambda>i. annotated env plugins ! i)
       (sort_key (\<lambda>i. rank (map ?key (annotated env plugins) ! i)) [0..<length plugins])"
    using sort_key_by_positions [of ?rank "annotated env plugins"] by (simp add: out size)
  have rank_erase: "?rank (eraseDeps p) = ?rank p" for p
    by (simp add: orderKey_eraseDeps)
  have "map ?key (annotated ?env' ?plugins') = map ?key (map eraseDeps (annotated ?env' ?plugins'))"
    by (simp add: orderKey_eraseDeps)
  also have "\<dots> = map ?key (map eraseDeps (annotated env plugins))"
    by (simp only: annotated_eraseDeps)
  also have "\<dots> = map ?key (annotated env plugins)"
    by (simp add: orderKey_eraseDeps)
  finally have same_keys:
    "map ?key (annotated ?env' ?plugins') = map ?key (annotated env plugins)" .
  have "list_all (\<lambda>key. key \<noteq> NaN) (map ?key (annotated ?env' ?plugins'))"
    unfolding same_keys using assms by (simp add: list_all_iff)
  then have "list_all (\<lambda>p. orderKey (orderMap_default ?env') p \<noteq> NaN)
               (annotated ?env' ?plugins')"
    by (simp add: list_all_iff)
  then have "fst (annotatePlugins ?env' ?plugins') =
             sort_key (\<lambda>p. rank (orderKey (orderMap_default ?env') p))
               (annotated ?env' ?plugins')"
    by (rule annotatePlugins_stable_sort)
  then have "map eraseDeps (fst (annotatePlugins ?env' ?plugins')) =
        map eraseDeps (sort_key ?rank (annotated ?env' ?plugins'))"
    by simp
  also have "\<dots> = sort_key ?rank (map eraseDeps (annotated ?env' ?plugins'))"
    by (rule sort_key_map_commute) (rule rank_erase)
  also have "\<dots> = sort_key ?rank (map eraseDeps (annotated env plugins))"
    by (simp only: annotated_eraseDeps)
  also have "\<dots> = map eraseDeps (sort_key ?rank (annotated env plugins))"
    by (rule sort_key_map_commute [symmetric]) (rule rank_erase)
  finally have deps_free:
    "map eraseDeps (fst (annotatePlugins ?env' ?plugins')) =
     map eraseDeps (fst (annotatePlugins env plugins))"
    by (simp add: out)
  from sorted_out default_key explicit_key same_plugins stable by_keys deps_free
  show ?thesis by blast
qed

theorem annotatePlugins_sorted_without_nan_witness:
  "list_all (\<lambda>p. orderKey (orderMap_default exampleAnnotateEnv) p \<noteq> NaN)
     (annotated exampleAnnotateEnv orderedPlugins) \<and>
   map (orderKey (orderMap_default exampleAnnotateEnv))
     (fst (annotatePlugins exampleAnnotateEnv orderedPlugins)) =
     [Finite (- 20), Finite 0, Finite 20] \<and>
   sorted_wrt numLe
     (map (orderKey (orderMap_default exampleAnnotateEnv))
        (fst (annotatePlugins exampleAnnotateEnv orderedPlugins))) \<and>
   mset (fst (annotatePlugins exampleAnnotateEnv orderedPlugins)) =
     mset (annotated exampleAnnotateEnv orderedPlugins)"
proof -
  have keys: "list_all (\<lambda>p. orderKey (orderMap_default exampleAnnotateEnv) p \<noteq> NaN)
     (annotated exampleAnnotateEnv orderedPlugins)"
    by (simp add: annotated_def annotateOne_def mergeMeta_def override_def
        exampleAnnotateEnv_def orderedPlugins_def plainPlugin_def orderKey_def)
  have out: "map (orderKey (orderMap_default exampleAnnotateEnv))
     (fst (annotatePlugins exampleAnnotateEnv orderedPlugins)) =
     [Finite (- 20), Finite 0, Finite 20]"
    by (simp add: annotatePlugins_def annotated_def annotateOne_def mergeMeta_def
        override_def exampleAnnotateEnv_def orderedPlugins_def plainPlugin_def arraySort_def
        countAndMakeRun_def compareOrder_def orderKey_def numSub_def isNegative_def
        findSlot.simps)
  have ascending: "sorted_wrt numLe
     (map (orderKey (orderMap_default exampleAnnotateEnv))
        (fst (annotatePlugins exampleAnnotateEnv orderedPlugins)))"
    by (rule annotatePlugins_sorted_without_nan [OF keys, THEN conjunct1])
  have same: "mset (fst (annotatePlugins exampleAnnotateEnv orderedPlugins)) =
     mset (annotated exampleAnnotateEnv orderedPlugins)"
    by (rule annotatePlugins_sorted_without_nan
          [OF keys, THEN conjunct2, THEN conjunct2, THEN conjunct2, THEN conjunct1])
  from keys out ascending same show ?thesis
    by (simp only: simp_thms)
qed

lemma annotateOne_keeps:
  assumes "p_name plugin = Some name" and "p_dependsOn plugin = Some ds"
  shows "p_src (fst (annotateOne env plugin)) = p_src plugin \<and>
         p_name (fst (annotateOne env plugin)) = Some name \<and>
         p_dependsOn (fst (annotateOne env plugin)) = Some ds"
  using assms
  by (auto simp: annotateOne_def mergeMeta_def override_def split: option.splits sum.splits)

text \<open>
  C4, as stated: for the two plugins that depend on each other exactly one cycle message
  would be written. Two are written, one for each starting plugin.
\<close>

theorem cycle_diagnostics_counterexample:
  "length (checkForCircularDependencies cyclePlugins) \<noteq> 1 \<and>
   checkForCircularDependencies cyclePlugins \<noteq> [CircularDependency [''a'', ''b'', ''a'']]"
  by (simp add: checkForCircularDependencies_def cyclePlugins_def buildDeps_def
      missingOf_def forInKeys_def isArrayIndex_def isDigit_def checkDeps.simps)

text \<open>
  C4, amended: for the plugins \<open>a\<close> (depending on \<open>b\<close>) and \<open>b\<close> (depending on \<open>a\<close>),
  whatever the files and their metadata are, the output of \<open>annotatePlugins\<close> consists of
  these two plugins, and \<open>checkForCircularDependencies\<close> writes exactly two messages: the
  cycle \<open>a -> b -> a\<close>, found from \<open>a\<close>, and the cycle \<open>b -> a -> b\<close>, found from \<open>b\<close>.
\<close>

theorem cycle_plugins_kept_and_reported:
  "mset (map (\<lambda>p. (p_src p, p_name p, p_dependsOn p))
          (fst (annotatePlugins env cyclePlugins))) =
     {#(''/project/plugins/a.ts'', Some ''a'', Some [''b'']),
       (''/project/plugins/b.ts'', Some ''b'', Some [''a''])#} \<and>
   checkForCircularDependencies cyclePlugins =
     [CircularDependency [''a'', ''b'', ''a''], CircularDependency [''b'', ''a'', ''b'']] \<and>
   map render (checkForCircularDependencies cyclePlugins) =
     [''Circular dependency detected in plugins: a -> b -> a'',
      ''Circular dependency detected in plugins: b -> a -> b'']"
proof -
  let ?a = "\<lparr>p_src = ''/project/plugins/a.ts'', p_mode = None, p_order = None,
       p_name = Some ''a'', p_dependsOn = Some [''b''], p_parallel = None,
       p_undefined = []\<rparr>"
  let ?b = "\<lparr>p_src = ''/project/plugins/b.ts'', p_mode = None, p_order = None,
       p_name = Some ''b'', p_dependsOn = Some [''a''], p_parallel = None,
       p_undefined = []\<rparr>"
  let ?id = "\<lambda>p. (p_src p, p_name p, p_dependsOn p)"
  have a: "?id (fst (annotateOne env ?a)) = (''/project/plugins/a.ts'', Some ''a'', Some [''b''])"
    using annotateOne_keeps [of ?a "''a''" "[''b'']" env] by simp
  have b: "?id (fst (annotateOne env ?b)) = (''/project/plugins/b.ts'', Some ''b'', Some [''a''])"
    using annotateOne_keeps [of ?b "''b''" "[''a'']" env] by simp
  have "mset (map ?id (fst (annotatePlugins env cyclePlugins))) =
        image_mset ?id (mset (annotated env cyclePlugins))"
    by (simp add: annotatePlugins_def mset_arraySort)
  also have "\<dots> = {#?id (fst (annotateOne env ?a)), ?id (fst (annotateOne env ?b))#}"
    by (simp add: annotated_def cyclePlugins_def)
  finally have kept: "mset (map ?id (fst (annotatePlugins env cyclePlugins))) =
     {#(''/project/plugins/a.ts'', Some ''a'', Some [''b'']),
       (''/project/plugins/b.ts'', Some ''b'', Some [''a''])#}"
    by (simp only: a b)
  have reported: "checkForCircularDependencies cyclePlugins =
     [CircularDependency [''a'', ''b'', ''a''], CircularDependency [''b'', ''a'', ''b'']]"
    by (simp add: checkForCircularDependencies_def cyclePlugins_def buildDeps_def
        missingOf_def forInKeys_def isArrayIndex_def isDigit_def checkDeps.simps)
  have "map render (checkForCircularDependencies cyclePlugins) =
     [''Circular dependency detected in plugins: a -> b -> a'',
      ''Circular dependency detected in plugins: b -> a -> b'']"
    by (simp add: reported render_def)
  with kept reported show ?thesis by blast
qed

section \<open>Properties of the resolved app\<close>

lemma layoutLoop_warnings:
  "snd (layoutLoop env config files (layouts, ws)) =
     ws @ map (\<lambda>file. NoLayoutName (relative (a_cwd env) (a_srcDir env) file))
            (filter (\<lambda>file. layoutName env config file = []) files)"
  by (induction files arbitrary: layouts ws) (simp_all add: Let_def)

lemma storeLayout_empty_name: "name \<noteq> [] \<Longrightarrow> storeLayout name file layouts [] = layouts []"
  by (simp add: storeLayout_def split: option.splits)

lemma storeLayout_entry:
  "storeLayout name file layouts key = Some (LayoutEntry n f) \<Longrightarrow>
   layouts key = Some (LayoutEntry n f) \<or> (key = name \<and> n = name \<and> f = file)"
  by (auto simp: storeLayout_def split: option.splits if_splits)

lemma layoutLoop_empty_name:
  "fst (layoutLoop env config files (layouts, ws)) [] = layouts []"
  by (induction files arbitrary: layouts ws) (simp_all add: Let_def storeLayout_empty_name)

lemma layoutLoop_entry:
  "fst (layoutLoop env config files (layouts, ws)) key = Some (LayoutEntry n f) \<Longrightarrow>
   layouts key = Some (LayoutEntry n f) \<or>
   (n = key \<and> n \<noteq> [] \<and> f \<in> set files \<and> layoutName env config f = n)"
proof (induction files arbitrary: layouts ws)
  case Nil
  then show ?case by simp
next
  case (Cons x files)
  show ?case
  proof (cases "layoutName env config x = []")
    case True
    with Cons.prems Cons.IH [of layouts _] show ?thesis
      by (auto simp: Let_def)
  next
    case False
    with Cons.prems
    have "storeLayout (layoutName env config x) x layouts key = Some (LayoutEntry n f) \<or>
          (n = key \<and> n \<noteq> [] \<and> f \<in> set files \<and> layoutName env config f = n)"
      using Cons.IH [of "storeLayout (layoutName env config x) x layouts" ws]
      by (simp add: Let_def)
    with False show ?thesis
      by (auto dest: storeLayout_entry)
  qed
qed

lemma layoutLoop_pair:
  "layoutLoop env config files st =
     (fst (layoutLoop env config files (fst st, snd st)),
      snd (layoutLoop env config files (fst st, snd st)))"
  by simp

lemma resolveLayouts_fold_warnings:
  "snd (fold (\<lambda>config st. layoutLoop env config (layoutFiles env config) st) configs st) =
     snd st @ concat (map (layoutWarnings env) configs)"
proof (induction configs arbitrary: st)
  case Nil
  then show ?case by simp
next
  case (Cons config configs)
  obtain layouts ws where st: "st = (layouts, ws)"
    by (cases st)
  show ?case
    by (simp add: Cons.IH st layoutLoop_warnings layoutWarnings_def)
qed

lemma resolveLayouts_fold_empty_name:
  "fst (fold (\<lambda>config st. layoutLoop env config (layoutFiles env config) st) configs st) [] =
     fst st []"
proof (induction configs arbitrary: st)
  case Nil
  then show ?case by simp
next
  case (Cons config configs)
  obtain layouts ws where st: "st = (layouts, ws)"
    by (cases st)
  show ?case
    by (simp add: Cons.IH st layoutLoop_empty_name)
qed

lemma resolveLayouts_fold_entry:
  "fst (fold (\<lambda>config st. layoutLoop env config (layoutFiles env config) st) configs st) key =
     Some (LayoutEntry n f) \<Longrightarrow>
   fst st key = Some (LayoutEntry n f) \<or>
   (n = key \<and> n \<noteq> [] \<and>
    list_ex (\<lambda>config. f \<in> set (layoutFiles env config) \<and> layoutName env config f = n) configs)"
proof (induction configs arbitrary: st)
  case Nil
  then show ?case by simp
next
  case (Cons config configs)
  obtain layouts ws where st: "st = (layouts, ws)"
    by (cases st)
  from Cons.prems
  have "fst (layoutLoop env config (layoutFiles env config) st) key = Some (LayoutEntry n f) \<or>
        (n = key \<and> n \<noteq> [] \<and>
         list_ex (\<lambda>config. f \<in> set (layoutFiles env config) \<and> layoutName env config f = n)
           configs)"
    using Cons.IH [of "layoutLoop env config (layoutFiles env config) st"] by simp
  then show ?case
    using layoutLoop_entry [of env config "layoutFiles env config" layouts ws key n f]
    by (auto simp: st)
qed

lemma resolveLayouts_wellNamed: "wellNamed env (fst (resolveLayouts env))"
  unfolding wellNamed_def resolveLayouts_def
  using resolveLayouts_fold_entry [of env "a_layers env" "(Map.empty, [])"]
  by (auto simp: resolveLayouts_fold_empty_name)

lemma middlewareLoop_result:
  "middlewareLoop env files (middleware, ws) =
     (middleware @
        map (\<lambda>file. \<lparr>mw_name = getNameFromPath env file None, mw_path = file,
                      mw_global = hasSuffix env file ''.global''\<rparr>)
            (filter (\<lambda>file. getNameFromPath env file None \<noteq> []) files),
      ws @ map (\<lambda>file. NoMiddlewareName (relative (a_cwd env) (a_srcDir env) file))
             (filter (\<lambda>file. getNameFromPath env file None = []) files))"
  by (induction files arbitrary: middleware ws) (simp_all add: Let_def)

lemma resolveMiddleware_fold:
  "fold (\<lambda>config st. middlewareLoop env (middlewareFiles env config) st) configs st =
     (fst st @ concat (map (namedMiddleware env) configs),
      snd st @ concat (map (middlewareWarnings env) configs))"
proof (induction configs arbitrary: st)
  case Nil
  then show ?case by simp
next
  case (Cons config configs)
  obtain middleware ws where st: "st = (middleware, ws)"
    by (cases st)
  show ?case
    by (simp add: Cons.IH st middlewareLoop_result namedMiddleware_def middlewareWarnings_def)
qed

lemma resolveMiddleware_eq:
  "resolveMiddleware env =
     (concat (map (namedMiddleware env) (rev (a_layers env))),
      concat (map (middlewareWarnings env) (rev (a_layers env))))"
  by (simp add: resolveMiddleware_def resolveMiddleware_fold)

lemma resolveMiddleware_named: "list_all (\<lambda>m. mw_name m \<noteq> []) (fst (resolveMiddleware env))"
  by (auto simp: resolveMiddleware_eq namedMiddleware_def list_all_iff)

subsection \<open>De-duplication\<close>

lemma uniqueByLoop_result:
  "uniqueByLoop key arr seen res = res @ uniqueByLoop key arr seen []"
proof (induction arr arbitrary: seen res)
  case Nil
  then show ?case by simp
next
  case (Cons item arr)
  show ?case
    using Cons.IH [of "key item # seen" "res @ [item]"] Cons.IH [of "key item # seen" "[item]"]
      Cons.IH [of seen res]
    by simp
qed

lemma uniqueByLoop_Cons:
  "uniqueByLoop key (item # arr) seen [] =
     (if key item \<in> set seen then uniqueByLoop key arr seen []
      else item # uniqueByLoop key arr (key item # seen) [])"
  using uniqueByLoop_result [of key arr "key item # seen" "[item]"] by simp

lemma uniqueByLoop_subset: "set (uniqueByLoop key arr seen []) \<subseteq> set arr"
proof (induction arr arbitrary: seen)
  case Nil
  then show ?case by simp
next
  case (Cons item arr)
  show ?case
    using Cons.IH [of seen] Cons.IH [of "key item # seen"]
    by (auto simp: uniqueByLoop_Cons simp del: uniqueByLoop.simps)
qed

lemma uniqueByLoop_keys:
  "set (map key (uniqueByLoop key arr seen [])) = set (map key arr) - set seen"
proof (induction arr arbitrary: seen)
  case Nil
  then show ?case by simp
next
  case (Cons item arr)
  show ?case
    using Cons.IH [of seen] Cons.IH [of "key item # seen"]
    by (auto simp: uniqueByLoop_Cons simp del: uniqueByLoop.simps)
qed

lemma uniqueByLoop_distinct: "distinct (map key (uniqueByLoop key arr seen []))"
proof (induction arr arbitrary: seen)
  case Nil
  then show ?case by simp
next
  case (Cons item arr)
  show ?case
    using Cons.IH [of seen] Cons.IH [of "key item # seen"]
      uniqueByLoop_keys [of key arr "key item # seen"]
    by (auto simp: uniqueByLoop_Cons simp del: uniqueByLoop.simps)
qed

lemma uniqueByLoop_find:
  "find (\<lambda>x. key x = k) (uniqueByLoop key arr seen []) =
     (if k \<in> set seen then None else find (\<lambda>x. key x = k) arr)"
proof (induction arr arbitrary: seen)
  case Nil
  then show ?case by simp
next
  case (Cons item arr)
  show ?case
    using Cons.IH [of seen] Cons.IH [of "key item # seen"]
    by (auto simp: uniqueByLoop_Cons simp del: uniqueByLoop.simps)
qed

lemma uniqueBy_first: "find (\<lambda>x. key x = k) (uniqueBy arr key) = find (\<lambda>x. key x = k) arr"
  by (simp add: uniqueBy_def uniqueByLoop_find)

lemma uniqueBy_distinct: "distinct (map key (uniqueBy arr key))"
  by (simp add: uniqueBy_def uniqueByLoop_distinct)

lemma uniqueBy_keys: "set (map key (uniqueBy arr key)) = set (map key arr)"
  using uniqueByLoop_keys [of key arr "[]"] by (simp add: uniqueBy_def)

lemma uniqueBy_subset: "set (uniqueBy arr key) \<subseteq> set arr"
  by (simp add: uniqueBy_def uniqueByLoop_subset)

lemma find_append_cases:
  "find P (xs @ ys) = (case find P xs of Some x \<Rightarrow> Some x | None \<Rightarrow> find P ys)"
  by (induction xs) simp_all

lemma find_rev_distinct:
  "distinct (map key xs) \<Longrightarrow> find (\<lambda>x. key x = k) (rev xs) = find (\<lambda>x. key x = k) xs"
proof (induction xs)
  case Nil
  then show ?case by simp
next
  case (Cons x xs)
  show ?case
  proof (cases "key x = k")
    case True
    have "key x \<notin> key ` set xs"
      using Cons.prems by simp
    then have "\<not> (\<exists>y. y \<in> set xs \<and> key y = k)"
      using True by blast
    then have "find (\<lambda>y. key y = k) xs = None"
      by (simp add: find_None_iff)
    with True Cons show ?thesis
      by (simp add: find_append_cases)
  next
    case False
    with Cons show ?thesis
      by (simp add: find_append_cases split: option.splits)
  qed
qed

lemma uniqueBy_reversed_last:
  "find (\<lambda>x. key x = k) (rev (uniqueBy (rev arr) key)) = find (\<lambda>x. key x = k) (rev arr)"
  by (simp add: find_rev_distinct uniqueBy_distinct uniqueBy_first)

lemma resolveMiddlewarePaths_names:
  "map mw_name (resolveMiddlewarePaths env items) = map mw_name items"
  by (simp add: resolveMiddlewarePaths_def)

lemma beforeHook_parts:
  "resolveAppBeforeHook env =
     (\<lparr>app_layouts = fst (resolveLayouts env),
       app_middleware =
         rev (uniqueBy (resolveMiddlewarePaths env (rev (fst (resolveMiddleware env)))) mw_name),
       app_plugins =
         uniqueBy (resolvePluginPaths env (addBackPlugins env (resolvePlugins env))) p_src\<rparr>,
      snd (resolveLayouts env) @ snd (resolveMiddleware env))"
  by (simp add: resolveAppBeforeHook_def split: prod.splits)

lemma beforeHook_middleware_named:
  "list_all (\<lambda>m. mw_name m \<noteq> []) (app_middleware (fst (resolveAppBeforeHook env)))"
proof -
  let ?resolved = "resolveMiddlewarePaths env (rev (fst (resolveMiddleware env)))"
  have "set (map mw_name (uniqueBy ?resolved mw_name)) = set (map mw_name ?resolved)"
    by (rule uniqueBy_keys)
  also have "\<dots> = set (map mw_name (fst (resolveMiddleware env)))"
    by (simp add: resolveMiddlewarePaths_names)
  finally have "mw_name ` set (uniqueBy ?resolved mw_name) =
                mw_name ` set (fst (resolveMiddleware env))"
    by simp
  moreover have "[] \<notin> mw_name ` set (fst (resolveMiddleware env))"
    using resolveMiddleware_named [of env] by (auto simp: list_all_iff)
  ultimately have "[] \<notin> mw_name ` set (uniqueBy ?resolved mw_name)"
    by simp
  then have "\<forall>m \<in> set (uniqueBy ?resolved mw_name). mw_name m \<noteq> []"
    by (metis image_eqI)
  then show ?thesis
    by (simp add: beforeHook_parts list_all_iff)
qed

text \<open>
  C9: a layout or middleware file for which no name is derived gets a warning and nothing
  else: the warnings of \<open>resolveApp\<close> are exactly one per such file, the middleware
  collected are exactly those of the files with a name, no layout is stored under the
  empty name, and every layout entry is stored under the non-empty name derived for its
  file. The loops have no failing branch. After the \<open>app:resolve\<close> hook the layouts
  are those the hook leaves and the middleware names are those the hook leaves: the
  second de-duplication adds no entry.
\<close>

theorem unnamed_files_dropped_with_warning:
  "snd (resolveLayouts env) = concat (map (layoutWarnings env) (a_layers env)) \<and>
   wellNamed env (fst (resolveLayouts env)) \<and>
   resolveMiddleware env =
     (concat (map (namedMiddleware env) (rev (a_layers env))),
      concat (map (middlewareWarnings env) (rev (a_layers env)))) \<and>
   list_all (\<lambda>m. mw_name m \<noteq> []) (fst (resolveMiddleware env)) \<and>
   wellNamed env (app_layouts (fst (resolveAppBeforeHook env))) \<and>
   list_all (\<lambda>m. mw_name m \<noteq> []) (app_middleware (fst (resolveAppBeforeHook env))) \<and>
   snd (resolveAppBeforeHook env) =
     concat (map (layoutWarnings env) (a_layers env)) @
     concat (map (middlewareWarnings env) (rev (a_layers env))) \<and>
   app_layouts (fst (resolveApp env)) =
     app_layouts (appResolveHook env (fst (resolveAppBeforeHook env))) \<and>
   set (map mw_name (app_middleware (fst (resolveApp env)))) =
     set (map mw_name (app_middleware (appResolveHook env (fst (resolveAppBeforeHook env))))) \<and>
   snd (resolveApp env) = snd (resolveAppBeforeHook env)"
proof -
  have after_layouts: "app_layouts (fst (resolveApp env)) =
     app_layouts (appResolveHook env (fst (resolveAppBeforeHook env)))"
    by (simp add: resolveApp_def Let_def split: prod.splits)
  have "app_middleware (fst (resolveApp env)) =
     uniqueBy (resolveMiddlewarePaths env
       (app_middleware (appResolveHook env (fst (resolveAppBeforeHook env))))) mw_name"
    by (simp add: resolveApp_def Let_def split: prod.splits)
  then have after_names: "set (map mw_name (app_middleware (fst (resolveApp env)))) =
     set (map mw_name (app_middleware (appResolveHook env (fst (resolveAppBeforeHook env)))))"
    by (simp only: uniqueBy_keys resolveMiddlewarePaths_names)
  have after_warnings: "snd (resolveApp env) = snd (resolveAppBeforeHook env)"
    by (simp add: resolveApp_def Let_def split: prod.splits)
  have layout_warnings:
    "snd (resolveLayouts env) = concat (map (layoutWarnings env) (a_layers env))"
    by (simp add: resolveLayouts_def resolveLayouts_fold_warnings)
  have hook_layouts: "app_layouts (fst (resolveAppBeforeHook env)) = fst (resolveLayouts env)"
    by (simp add: beforeHook_parts)
  have hook_warnings: "snd (resolveAppBeforeHook env) =
     concat (map (layoutWarnings env) (a_layers env)) @
     concat (map (middlewareWarnings env) (rev (a_layers env)))"
    by (simp add: beforeHook_parts layout_warnings resolveMiddleware_eq)
  from layout_warnings resolveLayouts_wellNamed [of env] resolveMiddleware_eq [of env]
    resolveMiddleware_named [of env] hook_layouts beforeHook_middleware_named [of env]
    hook_warnings after_layouts after_names after_warnings
  show ?thesis by simp
qed

lemmas exampleApp_defs =
  exampleAppEnv_def resolveApp_def resolveAppBeforeHook_def resolveLayouts_def
  resolveMiddleware_def resolvePlugins_def addBackPlugins_def layerPlugins_def
  pluginFiles_def middlewareFiles_def layoutFiles_def layoutDir_def middlewareDir_def
  pluginDir_def orElse_def extensionGlob_def layoutName_def storeLayout_def
  objectPrototypeKeys_def uniqueBy_def resolveMiddlewarePaths_def resolvePluginPaths_def
  sharedPlugin_def startsWith_def endsWith_def relative_def resolve_def rooted_def
  isAbsolute_def normalizeWindowsPath_def Let_def

theorem unnamed_files_dropped_with_warning_witness:
  "fst (resolveLayouts exampleAppEnv) ''default'' =
     Some (LayoutEntry ''default'' ''/project/layouts/default.vue'') \<and>
   list_ex (\<lambda>config. ''/project/layouts/default.vue'' \<in> set (layoutFiles exampleAppEnv config) \<and>
                      layoutName exampleAppEnv config ''/project/layouts/default.vue'' = ''default'')
     (a_layers exampleAppEnv) \<and>
   fst (resolveLayouts exampleAppEnv) [] = None \<and>
   snd (resolveAppBeforeHook exampleAppEnv) =
     [NoLayoutName ''layouts/index.vue'', NoLayoutName ''../base/layouts/index.vue'',
      NoMiddlewareName ''../base/middleware/index.ts'', NoMiddlewareName ''middleware/index.ts''] \<and>
   app_middleware (fst (resolveApp exampleAppEnv)) =
     [\<lparr>mw_name = ''auth'', mw_path = ''/project/middleware/auth.ts'', mw_global = False\<rparr>]"
proof -
  have stored: "fst (resolveLayouts exampleAppEnv) ''default'' =
     Some (LayoutEntry ''default'' ''/project/layouts/default.vue'')"
    by (simp add: exampleApp_defs)
  have warned: "snd (resolveAppBeforeHook exampleAppEnv) =
     [NoLayoutName ''layouts/index.vue'', NoLayoutName ''../base/layouts/index.vue'',
      NoMiddlewareName ''../base/middleware/index.ts'', NoMiddlewareName ''middleware/index.ts'']"
    by (simp add: exampleApp_defs)
  have kept: "app_middleware (fst (resolveApp exampleAppEnv)) =
     [\<lparr>mw_name = ''auth'', mw_path = ''/project/middleware/auth.ts'', mw_global = False\<rparr>]"
    by (simp add: exampleApp_defs)
  from unnamed_files_dropped_with_warning [of exampleAppEnv]
  have "wellNamed exampleAppEnv (fst (resolveLayouts exampleAppEnv))"
    by simp
  with stored warned kept show ?thesis
    by (simp only: wellNamed_def)
qed

text \<open>
  C6, as stated: the plugin kept for a source path would be the one resolved last. In the
  example both layers declare \<open>/shared/plugin.ts\<close>; the plugins are collected with the
  base layer's entry first and the project's entry last, and the entry kept is the first.
\<close>

theorem dedupe_plugins_counterexample:
  "resolvePluginPaths exampleAppEnv (addBackPlugins exampleAppEnv (resolvePlugins exampleAppEnv)) =
     [sharedPlugin ''client'', sharedPlugin ''server''] \<and>
   app_plugins (fst (resolveApp exampleAppEnv)) = [sharedPlugin ''client''] \<and>
   sharedPlugin ''client'' \<noteq> sharedPlugin ''server''"
  by (simp add: exampleApp_defs)

text \<open>
  C6, amended: \<open>resolveApp\<close> leaves one plugin for each resolved source path and one
  middleware for each name. In the de-duplication before the \<open>app:resolve\<close> hook the
  middleware kept for a name is the last one collected, and the plugin kept for a source
  path is the first one of the plugin list, not the last. In the de-duplication after the
  hook, both the middleware and the plugin kept are the first of the list the hook leaves.
\<close>

theorem dedupe_keeps_first_plugin_last_middleware:
  "distinct (map p_src (app_plugins (fst (resolveAppBeforeHook env)))) \<and>
   distinct (map mw_name (app_middleware (fst (resolveAppBeforeHook env)))) \<and>
   find (\<lambda>p. p_src p = src) (app_plugins (fst (resolveAppBeforeHook env))) =
     find (\<lambda>p. p_src p = src)
       (resolvePluginPaths env (addBackPlugins env (resolvePlugins env))) \<and>
   find (\<lambda>m. mw_name m = name) (app_middleware (fst (resolveAppBeforeHook env))) =
     find (\<lambda>m. mw_name m = name)
       (rev (resolveMiddlewarePaths env (fst (resolveMiddleware env)))) \<and>
   distinct (map p_src (app_plugins (fst (resolveApp env)))) \<and>
   distinct (map mw_name (app_middleware (fst (resolveApp env)))) \<and>
   find (\<lambda>p. p_src p = src) (app_plugins (fst (resolveApp env))) =
     find (\<lambda>p. p_src p = src)
       (resolvePluginPaths env
          (app_plugins (appResolveHook env (fst (resolveAppBeforeHook env))))) \<and>
   find (\<lambda>m. mw_name m = name) (app_middleware (fst (resolveApp env))) =
     find (\<lambda>m. mw_name m = name)
       (resolveMiddlewarePaths env
          (app_middleware (appResolveHook env (fst (resolveAppBeforeHook env)))))"
proof -
  let ?collected = "fst (resolveMiddleware env)"
  have reversed: "resolveMiddlewarePaths env (rev ?collected) =
                  rev (resolveMiddlewarePaths env ?collected)"
    by (simp add: resolveMiddlewarePaths_def rev_map)
  have before_plugins: "app_plugins (fst (resolveAppBeforeHook env)) =
     uniqueBy (resolvePluginPaths env (addBackPlugins env (resolvePlugins env))) p_src"
    by (simp add: beforeHook_parts)
  have before_middleware: "app_middleware (fst (resolveAppBeforeHook env)) =
     rev (uniqueBy (rev (resolveMiddlewarePaths env ?collected)) mw_name)"
    by (simp add: beforeHook_parts reversed)
  have after_plugins: "app_plugins (fst (resolveApp env)) =
     uniqueBy (resolvePluginPaths env
       (app_plugins (appResolveHook env (fst (resolveAppBeforeHook env))))) p_src"
    by (simp add: resolveApp_def Let_def split: prod.splits)
  have after_middleware: "app_middleware (fst (resolveApp env)) =
     uniqueBy (resolveMiddlewarePaths env
       (app_middleware (appResolveHook env (fst (resolveAppBeforeHook env))))) mw_name"
    by (simp add: resolveApp_def Let_def split: prod.splits)
  have "distinct (map mw_name (app_middleware (fst (resolveAppBeforeHook env))))"
    by (simp add: before_middleware rev_map [symmetric] uniqueBy_distinct)
  then show ?thesis
    by (simp add: before_plugins before_middleware after_plugins after_middleware
        uniqueBy_distinct uniqueBy_first uniqueBy_reversed_last)
qed

section \<open>Properties of the app generator\<close>

lemma fold_store:
  "fold (\<lambda>k m. m(k \<mapsto> c)) ks m k' = (if k' \<in> set ks then Some c else m k')"
  by (induction ks arbitrary: m) auto

text \<open>What one settled compilation does to the virtual file system and to the writes.\<close>

lemma complete_failed:
  "compileTemplate env (ts ! i) = None \<Longrightarrow>
   s_vfs (complete env ts olds i st) = s_vfs st \<and>
   s_writes (complete env ts olds i st) = s_writes st \<and>
   s_modified (complete env ts olds i st) = s_modified st"
  by (simp add: complete_def)

lemma complete_unchanged:
  "compileTemplate env (ts ! i) = Some c \<Longrightarrow> olds ! i = Some c \<Longrightarrow>
   s_vfs (complete env ts olds i st) = s_vfs st \<and>
   s_writes (complete env ts olds i st) = s_writes st \<and>
   s_modified (complete env ts olds i st) = (s_modified st)(i \<mapsto> False)"
  by (simp add: complete_def)

lemma complete_vfs:
  "compileTemplate env (ts ! i) = Some c \<Longrightarrow>
   s_vfs (complete env ts olds i st) k =
     (if olds ! i \<noteq> Some c \<and> k \<in> set (writtenKeys env (ts ! i)) then Some c
      else s_vfs st k)"
  by (simp add: complete_def Let_def fold_store)

text \<open>
  A pass in which every template that compiles finds its own contents as old contents
  changes nothing.
\<close>

lemma quiet_pass:
  assumes "upToDate env ts olds" and "\<forall>i \<in> set settled. i < length ts"
  shows "s_vfs (fold (complete env ts olds) settled st) = s_vfs st \<and>
         s_writes (fold (complete env ts olds) settled st) = s_writes st \<and>
         (\<forall>i. s_modified (fold (complete env ts olds) settled st) i =
              (if i \<in> set settled \<and> compileTemplate env (ts ! i) \<noteq> None then Some False
               else s_modified st i))"
  using assms(2)
proof (induction settled arbitrary: st)
  case Nil
  then show ?case by simp
next
  case (Cons j settled)
  have j: "j < length ts"
    using Cons.prems by simp
  have step: "s_vfs (complete env ts olds j st) = s_vfs st \<and>
        s_writes (complete env ts olds j st) = s_writes st \<and>
        s_modified (complete env ts olds j st) =
          (if compileTemplate env (ts ! j) \<noteq> None then (s_modified st)(j \<mapsto> False)
           else s_modified st)"
  proof (cases "compileTemplate env (ts ! j)")
    case None
    then show ?thesis by (simp add: complete_failed)
  next
    case (Some c)
    with assms(1) j have "olds ! j = Some c"
      by (simp add: upToDate_def)
    with Some show ?thesis by (simp add: complete_unchanged)
  qed
  have rest: "\<forall>i \<in> set settled. i < length ts"
    using Cons.prems by simp
  show ?case
    using Cons.IH [OF rest, of "complete env ts olds j st"] step
    by auto
qed

text \<open>
  After a pass in which every compilation settles, every template that compiles has its
  contents under its path, provided no other template stores under that path.
\<close>

lemma noClashD:
  assumes "noClash env ts" and "i < length ts" and "j < length ts" and "i \<noteq> j"
  shows "fullPath env (ts ! i) \<notin> set (writtenKeys env (ts ! j))"
proof -
  have "i \<in> set [0..<length ts]" and "j \<in> set [0..<length ts]"
    using assms(2,3) by simp_all
  with assms(1) have "i = j \<or> fullPath env (ts ! i) \<notin> set (writtenKeys env (ts ! j))"
    unfolding noClash_def list_all_iff by blast
  with assms(4) show ?thesis by simp
qed

lemma first_pass_invariant:
  assumes clash: "noClash env ts"
    and olds: "olds = map (\<lambda>t. vfs0 (fullPath env t)) ts"
    and range: "\<forall>i \<in> set settled. i < length ts"
    and inv: "\<forall>i < length ts. \<forall>c. compileTemplate env (ts ! i) = Some c \<longrightarrow>
                s_vfs st (fullPath env (ts ! i)) =
                  (if i \<in> done then Some c else vfs0 (fullPath env (ts ! i)))"
  shows "\<forall>i < length ts. \<forall>c. compileTemplate env (ts ! i) = Some c \<longrightarrow>
           s_vfs (fold (complete env ts olds) settled st) (fullPath env (ts ! i)) =
             (if i \<in> done \<union> set settled then Some c else vfs0 (fullPath env (ts ! i)))"
  using range inv
proof (induction settled arbitrary: st "done")
  case Nil
  then show ?case by simp
next
  case (Cons j settled)
  have j: "j < length ts"
    using Cons.prems(1) by simp
  have old_j: "olds ! j = vfs0 (fullPath env (ts ! j))"
    using j olds by simp
  have own_key: "fullPath env (ts ! j) \<in> set (writtenKeys env (ts ! j))"
    by (simp add: writtenKeys_def)
  have step: "\<forall>i < length ts. \<forall>c. compileTemplate env (ts ! i) = Some c \<longrightarrow>
                s_vfs (complete env ts olds j st) (fullPath env (ts ! i)) =
                  (if i \<in> insert j done then Some c else vfs0 (fullPath env (ts ! i)))"
  proof (intro allI impI)
    fix i c
    assume i: "i < length ts" and ci: "compileTemplate env (ts ! i) = Some c"
    from Cons.prems(2) i ci
    have before: "s_vfs st (fullPath env (ts ! i)) =
                  (if i \<in> done then Some c else vfs0 (fullPath env (ts ! i)))"
      by blast
    show "s_vfs (complete env ts olds j st) (fullPath env (ts ! i)) =
            (if i \<in> insert j done then Some c else vfs0 (fullPath env (ts ! i)))"
    proof (cases "compileTemplate env (ts ! j)")
      case None
      with ci have "i \<noteq> j" by auto
      with None before show ?thesis by (simp add: complete_failed)
    next
      case (Some cj)
      show ?thesis
      proof (cases "i = j")
        case True
        with Some ci have same: "cj = c" by simp
        show ?thesis
          using True Some same before old_j own_key
          by (auto simp: complete_vfs)
      next
        case False
        with clash i j have "fullPath env (ts ! i) \<notin> set (writtenKeys env (ts ! j))"
          by (rule noClashD)
        with False Some before show ?thesis
          by (simp add: complete_vfs)
      qed
    qed
  qed
  have rest: "\<forall>i \<in> set settled. i < length ts"
    using Cons.prems(1) by simp
  show ?case
    using Cons.IH [OF rest step] by simp
qed

lemma first_pass_stores:
  assumes "noClash env ts" and "{..<length ts} \<subseteq> set settled"
  shows "upToDate env ts
           (map (\<lambda>t. s_vfs (fold (complete env ts (map (\<lambda>t. vfs0 (fullPath env t)) ts))
                                (filter (\<lambda>i. i < length ts) settled)
                                \<lparr>s_vfs = vfs0, s_modified = Map.empty, s_writes = [],
                                 s_failed = []\<rparr>)
                         (fullPath env t)) ts)"
proof -
  let ?olds = "map (\<lambda>t. vfs0 (fullPath env t)) ts"
  let ?settled = "filter (\<lambda>i. i < length ts) settled"
  let ?init = "\<lparr>s_vfs = vfs0, s_modified = Map.empty, s_writes = [], s_failed = []\<rparr>"
  have "\<forall>i < length ts. \<forall>c. compileTemplate env (ts ! i) = Some c \<longrightarrow>
           s_vfs (fold (complete env ts ?olds) ?settled ?init) (fullPath env (ts ! i)) =
             (if i \<in> {} \<union> set ?settled then Some c else vfs0 (fullPath env (ts ! i)))"
    by (rule first_pass_invariant [OF assms(1)]) simp_all
  moreover have "i \<in> set ?settled" if "i < length ts" for i
    using that assms(2) by auto
  ultimately show ?thesis
    by (simp add: upToDate_def)
qed

lemma no_changed_templates:
  "list_all (\<lambda>m. m \<noteq> Some True) flags \<Longrightarrow>
   filter (\<lambda>(t, m). m = Some True) (zip ts flags) = []"
  by (auto simp: filter_empty_conv list_all_iff dest: set_zip_rightD)

text \<open>
  C1, as stated: a second pass over templates that compile to the same contents would
  mark no template as modified and write nothing. With two templates of the same file
  name the second pass marks the first as modified, writes its file and changes the
  virtual file system.
\<close>

theorem generateApp_rerun_counterexample:
  "r_modified (generateApp exampleGenEnv None [0, 1] clashingTemplates
      (r_vfs (generateApp exampleGenEnv None [0, 1] clashingTemplates Map.empty))) =
     [Some True, Some False] \<and>
   r_written (generateApp exampleGenEnv None [0, 1] clashingTemplates
      (r_vfs (generateApp exampleGenEnv None [0, 1] clashingTemplates Map.empty))) =
     [(''/project/.nuxt/app.config.mjs'', ''// app.config.mjs'')] \<and>
   r_vfs (generateApp exampleGenEnv None [0, 1] clashingTemplates
      (r_vfs (generateApp exampleGenEnv None [0, 1] clashingTemplates Map.empty)))
     ''/project/.nuxt/app.config.mjs'' \<noteq>
   r_vfs (generateApp exampleGenEnv None [0, 1] clashingTemplates Map.empty)
     ''/project/.nuxt/app.config.mjs''"
proof -
  have first: "r_vfs (generateApp exampleGenEnv None [0, 1] clashingTemplates Map.empty) =
     [''/project/.nuxt/app.config.mjs'' \<mapsto> ''// from /module/app.config.mjs'',
      ''#build/app.config'' \<mapsto> ''// from /module/app.config.mjs'']"
    by (simp add: generateApp_def filterTemplates_def complete_def fullPath_def
        aliasPath_def writtenKeys_def stripExtension_def isWordChar_def exampleGenEnv_def
        resolve_def rooted_def isAbsolute_def normalizeWindowsPath_def startsWith_def Let_def clashingTemplates_def)
  show ?thesis
    unfolding first
    by (simp add: generateApp_def filterTemplates_def complete_def fullPath_def
        aliasPath_def writtenKeys_def stripExtension_def isWordChar_def exampleGenEnv_def
        resolve_def rooted_def isAbsolute_def normalizeWindowsPath_def startsWith_def Let_def clashingTemplates_def)
qed

text \<open>
  C1, amended: when no template stores under the path of another one and every
  compilation of the first pass has settled, a second pass over templates that compile to
  the same contents, in whatever order its compilations settle, leaves the virtual file
  system as it is, writes no file, calls no \<open>app:templatesGenerated\<close> hook, and sets
  \<open>modified\<close> to false for every template whose compilation has settled with contents.
\<close>

theorem generateApp_rerun_unchanged:
  assumes "noClash env (filterTemplates tfilter templates)"
    and "{..<length (filterTemplates tfilter templates)} \<subseteq> set settled1"
  shows "r_vfs (generateApp env tfilter settled2 templates
                  (r_vfs (generateApp env tfilter settled1 templates vfs0))) =
           r_vfs (generateApp env tfilter settled1 templates vfs0) \<and>
         r_written (generateApp env tfilter settled2 templates
                  (r_vfs (generateApp env tfilter settled1 templates vfs0))) = [] \<and>
         r_changedTemplates (generateApp env tfilter settled2 templates
                  (r_vfs (generateApp env tfilter settled1 templates vfs0))) = None \<and>
         r_modified (generateApp env tfilter settled2 templates
                  (r_vfs (generateApp env tfilter settled1 templates vfs0))) =
           map (\<lambda>i. if i \<in> set settled2 \<and>
                        compileTemplate env (filterTemplates tfilter templates ! i) \<noteq> None
                     then Some False else None)
               [0..<length (filterTemplates tfilter templates)]"
proof -
  let ?ts = "filterTemplates tfilter templates"
  let ?vfs1 = "r_vfs (generateApp env tfilter settled1 templates vfs0)"
  let ?olds2 = "map (\<lambda>t. ?vfs1 (fullPath env t)) ?ts"
  let ?settled2 = "filter (\<lambda>i. i < length ?ts) settled2"
  let ?init2 = "\<lparr>s_vfs = ?vfs1, s_modified = Map.empty, s_writes = [], s_failed = []\<rparr>"
  let ?st2 = "fold (complete env ?ts ?olds2) ?settled2 ?init2"
  have vfs1: "?vfs1 = s_vfs (fold (complete env ?ts (map (\<lambda>t. vfs0 (fullPath env t)) ?ts))
                                (filter (\<lambda>i. i < length ?ts) settled1)
                                \<lparr>s_vfs = vfs0, s_modified = Map.empty, s_writes = [],
                                 s_failed = []\<rparr>)"
    by (simp add: generateApp_def Let_def)
  have "upToDate env ?ts ?olds2"
    unfolding vfs1 by (rule first_pass_stores [OF assms])
  moreover have "\<forall>i \<in> set ?settled2. i < length ?ts"
    by simp
  ultimately have quiet:
    "s_vfs ?st2 = s_vfs ?init2 \<and> s_writes ?st2 = s_writes ?init2 \<and>
     (\<forall>i. s_modified ?st2 i =
        (if i \<in> set ?settled2 \<and> compileTemplate env (?ts ! i) \<noteq> None then Some False
         else s_modified ?init2 i))"
    by (rule quiet_pass)
  have flags: "map (s_modified ?st2) [0..<length ?ts] =
     map (\<lambda>i. if i \<in> set settled2 \<and> compileTemplate env (?ts ! i) \<noteq> None
               then Some False else None) [0..<length ?ts]"
    using quiet by simp
  have "list_all (\<lambda>m. m \<noteq> Some True) (map (s_modified ?st2) [0..<length ?ts])"
    unfolding flags by (auto simp: list_all_iff)
  then have unchanged:
    "filter (\<lambda>(t, m). m = Some True) (zip ?ts (map (s_modified ?st2) [0..<length ?ts])) = []"
    by (rule no_changed_templates)
  have result: "generateApp env tfilter settled2 templates ?vfs1 =
     \<lparr>r_vfs = s_vfs ?st2,
      r_modified = map (s_modified ?st2) [0..<length ?ts],
      r_written = s_writes ?st2,
      r_failed = s_failed ?st2,
      r_changedTemplates = None\<rparr>"
    using unchanged by (simp add: generateApp_def Let_def)
  show ?thesis
    unfolding result using quiet flags by simp
qed

theorem generateApp_rerun_unchanged_witness:
  "noClash exampleGenEnv (filterTemplates None distinctTemplates) \<and>
   {..<length (filterTemplates None distinctTemplates)} \<subseteq> set [1, 0] \<and>
   r_written (generateApp exampleGenEnv None [1, 0] distinctTemplates Map.empty) =
     [(''/project/.nuxt/app.config.mjs'', ''// app.config.mjs'')] \<and>
   r_vfs (generateApp exampleGenEnv None [0, 1] distinctTemplates
            (r_vfs (generateApp exampleGenEnv None [1, 0] distinctTemplates Map.empty))) =
     r_vfs (generateApp exampleGenEnv None [1, 0] distinctTemplates Map.empty) \<and>
   r_written (generateApp exampleGenEnv None [0, 1] distinctTemplates
            (r_vfs (generateApp exampleGenEnv None [1, 0] distinctTemplates Map.empty))) = [] \<and>
   r_changedTemplates (generateApp exampleGenEnv None [0, 1] distinctTemplates
            (r_vfs (generateApp exampleGenEnv None [1, 0] distinctTemplates Map.empty))) = None \<and>
   r_modified (generateApp exampleGenEnv None [0, 1] distinctTemplates
            (r_vfs (generateApp exampleGenEnv None [1, 0] distinctTemplates Map.empty))) =
     [Some False, Some False]"
proof -
  have clash: "noClash exampleGenEnv (filterTemplates None distinctTemplates)"
    by (simp add: noClash_def filterTemplates_def fullPath_def aliasPath_def writtenKeys_def
        stripExtension_def isWordChar_def exampleGenEnv_def resolve_def rooted_def
        isAbsolute_def normalizeWindowsPath_def startsWith_def distinctTemplates_def)
  have settled: "{..<length (filterTemplates None distinctTemplates)} \<subseteq> set [1, 0]"
    by (auto simp: filterTemplates_def distinctTemplates_def)
  have first: "r_written (generateApp exampleGenEnv None [1, 0] distinctTemplates Map.empty) =
     [(''/project/.nuxt/app.config.mjs'', ''// app.config.mjs'')]"
    by (simp add: generateApp_def filterTemplates_def complete_def fullPath_def
        aliasPath_def writtenKeys_def stripExtension_def isWordChar_def exampleGenEnv_def
        resolve_def rooted_def isAbsolute_def normalizeWindowsPath_def startsWith_def Let_def distinctTemplates_def)
  have flags: "map (\<lambda>i. if i \<in> set [0, 1] \<and>
                  compileTemplate exampleGenEnv (filterTemplates None distinctTemplates ! i) \<noteq> None
               then Some False else None)
           [0..<length (filterTemplates None distinctTemplates)] = [Some False, Some False]"
    by (simp add: filterTemplates_def distinctTemplates_def exampleGenEnv_def)
  from generateApp_rerun_unchanged [OF clash settled, of "[0, 1]" Map.empty]
  show ?thesis
    using clash settled first by (simp only: flags)
qed

end
